theory Spec2Isabelle
  imports Main
begin

section \<open>Strings\<close>

text \<open>
  A JavaScript string is a sequence of code units, modelled as a \<open>string\<close> (a list of
  8-bit characters, one per code unit; code units above 255 are not represented). The
  functions below inspect single code units only: the line feed, the double quote, the
  back tick, the brackets, \<open>P\<close>, the decimal digits and white space.
\<close>

definition newline :: char where
  "newline = CHR 0x0A"

text \<open>\<open>String.prototype.slice(a, b)\<close> for non-negative \<open>a\<close> and \<open>b\<close>: the code units
  from \<open>a\<close> up to, not including, \<open>b\<close>, both clamped to the length; empty when
  \<open>b \<le> a\<close>.\<close>

definition slice :: "string \<Rightarrow> nat \<Rightarrow> nat \<Rightarrow> string" where
  "slice s a b = take (b - a) (drop a s)"

text \<open>\<open>String.prototype.lastIndexOf(c, from)\<close> for a single code unit \<open>c\<close>: the greatest
  index \<open>k \<le> from\<close> with \<open>s[k] = c\<close>; the source's \<open>-1\<close> is \<open>None\<close>.\<close>

fun lastIndexOf :: "string \<Rightarrow> char \<Rightarrow> nat \<Rightarrow> nat option" where
  "lastIndexOf s c 0 = (if 0 < length s \<and> s ! 0 = c then Some 0 else None)"
| "lastIndexOf s c (Suc k) =
     (if Suc k < length s \<and> s ! Suc k = c then Some (Suc k) else lastIndexOf s c k)"

section \<open>Segmenter: \<open>createChunks\<close> (App.tsx)\<close>

text \<open>An element of the array \<open>createChunks\<close> returns; \<open>chunk_text\<close> is its field \<open>text\<close>.\<close>

record chunk =
  chunk_text :: string
  startIndex :: nat

text \<open>
  The end of the chunk that starts at cursor \<open>i\<close>: the body of one iteration of the
  \<open>while\<close> loop up to the \<open>push\<close>. The source compares \<open>lastNewline > i + (size * 0.9)\<close>
  in double precision; for the lengths a string can have, that comparison of an integer
  with \<open>i + 0.9 * size\<close> agrees with the exact one, written here without fractions as
  \<open>10 * lastNewline > 10 * i + 9 * size\<close>. A \<open>lastNewline\<close> of \<open>-1\<close> never passes the
  comparison.
\<close>

definition chunk_end :: "string \<Rightarrow> nat \<Rightarrow> nat \<Rightarrow> nat" where
  "chunk_end txt sz i =
     (let e = min (i + sz) (length txt) in
      if e < length txt then
        (case lastIndexOf txt newline e of
           Some lastNewline \<Rightarrow> if 10 * lastNewline > 10 * i + 9 * sz then lastNewline else e
         | None \<Rightarrow> e)
      else e)"

text \<open>The \<open>while (i < text.length)\<close> loop. It need not end (a \<open>size\<close> of 0 never moves the
  cursor), so not returning is the value \<open>None\<close>.\<close>

partial_function (option) createChunks_loop ::
  "string \<Rightarrow> nat \<Rightarrow> nat \<Rightarrow> chunk list \<Rightarrow> chunk list option" where
  "createChunks_loop txt sz i chunks =
     (if i < length txt then
        createChunks_loop txt sz (chunk_end txt sz i)
          (chunks @ [\<lparr>chunk_text = slice txt i (chunk_end txt sz i), startIndex = i\<rparr>])
      else Some chunks)"

declare createChunks_loop.simps [code]

definition createChunks :: "string \<Rightarrow> nat \<Rightarrow> chunk list option" where
  "createChunks txt sz = createChunks_loop txt sz 0 []"

text \<open>The list of chunks the loop appends when started at cursor \<open>i\<close>, as a
  predicate on lists: each chunk starts where the one before ended.\<close>

fun chunks_from :: "string \<Rightarrow> nat \<Rightarrow> nat \<Rightarrow> chunk list \<Rightarrow> bool" where
  "chunks_from txt sz i [] = (length txt \<le> i)"
| "chunks_from txt sz i (c # cs) =
     (i < length txt \<and>
      c = \<lparr>chunk_text = slice txt i (chunk_end txt sz i), startIndex = i\<rparr> \<and>
      chunks_from txt sz (chunk_end txt sz i) cs)"

text \<open>In the words of the specification: \<open>l\<close> is the nearest line break found searching
  backward from position \<open>e\<close>.\<close>

definition nearest_newline_back :: "string \<Rightarrow> nat \<Rightarrow> nat \<Rightarrow> bool" where
  "nearest_newline_back txt e l =
     (l \<le> e \<and> l < length txt \<and> txt ! l = newline \<and>
      (\<forall>j\<in>{l<..e}. j < length txt \<longrightarrow> txt ! j \<noteq> newline))"

text \<open>Approx 30k chars per chunk.\<close>

definition CHUNK_SIZE :: nat where
  "CHUNK_SIZE = 30000"

section \<open>Data model (types.ts)\<close>

text \<open>
  \<open>CheckStatus\<close> is a string enum: at run time a status is the string itself, and
  the comparisons of the source are string comparisons.
\<close>

definition ACCURATE :: string where
  "ACCURATE = ''ACCURATE''"

definition PARAPHRASED :: string where
  "PARAPHRASED = ''PARAPHRASED''"

definition MISATTRIBUTED :: string where
  "MISATTRIBUTED = ''MISATTRIBUTED''"

definition UNVERIFIABLE :: string where
  "UNVERIFIABLE = ''UNVERIFIABLE''"

definition CheckStatus :: "string set" where
  "CheckStatus = {ACCURATE, PARAPHRASED, MISATTRIBUTED, UNVERIFIABLE}"

text \<open>
  A \<open>VerificationItem\<close> as it exists at run time: an object produced by \<open>JSON.parse\<close>
  and cast, unchecked, to the interface. Each field is a string when present and \<open>None\<close>
  when the object lacks it (\<open>undefined\<close>); \<open>status\<close> is whatever string the response
  carried. The field \<open>notes\<close> is written \<open>notes'\<close>.
\<close>

record VerificationItem =
  location :: "string option"
  quote_text :: "string option"
  claimed_source :: "string option"
  status :: "string option"
  notes' :: "string option"

record AnalysisStats =
  accurate :: nat
  paraphrased :: nat
  misattributed :: nat
  unverifiable :: nat
  total :: nat

section \<open>Aggregator: \<open>stats\<close> (App.tsx)\<close>

text \<open>The body of the \<open>forEach\<close> callback: one item updates the counters.\<close>

definition count_status :: "VerificationItem \<Rightarrow> AnalysisStats \<Rightarrow> AnalysisStats" where
  "count_status r s =
     (if status r = Some ACCURATE then s\<lparr>accurate := accurate s + 1\<rparr>
      else if status r = Some PARAPHRASED then s\<lparr>paraphrased := paraphrased s + 1\<rparr>
      else if status r = Some MISATTRIBUTED then s\<lparr>misattributed := misattributed s + 1\<rparr>
      else if status r = Some UNVERIFIABLE then s\<lparr>unverifiable := unverifiable s + 1\<rparr>
      else s)"

definition stats :: "VerificationItem list \<Rightarrow> AnalysisStats" where
  "stats results =
     fold count_status results
       \<lparr>accurate = 0, paraphrased = 0, misattributed = 0, unverifiable = 0,
        total = length results\<rparr>"

section \<open>Exporter: \<open>handleExportCSV\<close> (App.tsx)\<close>

definition dquote :: char where
  "dquote = CHR 0x22"

text \<open>\<open>Array.prototype.join\<close> on an array of strings.\<close>

fun join :: "string list \<Rightarrow> string \<Rightarrow> string" where
  "join [] sep = []"
| "join [x] sep = x"
| "join (x # y # ys) sep = x @ sep @ join (y # ys) sep"

text \<open>\<open>escape\<close>: \<open>(str || '')\<close> with every double quote doubled (the global replace),
  between two double quotes.\<close>

definition escape :: "string option \<Rightarrow> string" where
  "escape str =
     [dquote] @
     concat (map (\<lambda>c. if c = dquote then [dquote, dquote] else [c])
                 (case str of None \<Rightarrow> [] | Some s \<Rightarrow> s)) @
     [dquote]"

definition headers :: "string list" where
  "headers = [''Location'', ''Quote'', ''Claimed Source'', ''Status'', ''Notes'']"

definition csv_row :: "VerificationItem \<Rightarrow> string" where
  "csv_row item =
     join [escape (location item), escape (quote_text item), escape (claimed_source item),
           escape (status item), escape (notes' item)] '',''"

text \<open>The result is \<open>csvContent\<close>, the text handed to the download; \<open>None\<close> is the early
  return, where nothing is produced.\<close>

definition handleExportCSV :: "VerificationItem list \<Rightarrow> string option" where
  "handleExportCSV results =
     (if length results = 0 then None
      else Some (join (join headers '','' # map csv_row results) [newline]))"

text \<open>In the words of the specification: reading a field body back, each doubled
  double quote standing for one.\<close>

fun undouble :: "string \<Rightarrow> string" where
  "undouble (a # b # cs) =
     (if a = dquote \<and> b = dquote then dquote # undouble cs else a # undouble (b # cs))"
| "undouble cs = cs"

definition quoted :: "string \<Rightarrow> string" where
  "quoted s = [dquote] @ s @ [dquote]"

section \<open>Oracle adapter: \<open>cleanJson\<close> and \<open>verifyManuscript\<close> (geminiService)\<close>

text \<open>White space as \<open>trim\<close> and the class \<open>\s\<close> take it, among the code units
  represented: tab, line feed, vertical tab, form feed, carriage return, space and
  no-break space.\<close>

definition is_space :: "char \<Rightarrow> bool" where
  "is_space c = (c \<in> set [CHR 0x09, CHR 0x0A, CHR 0x0B, CHR 0x0C, CHR 0x0D, CHR 0x20, CHR 0xA0])"

definition trim :: "string \<Rightarrow> string" where
  "trim s = rev (dropWhile is_space (rev (dropWhile is_space s)))"

definition startsWith :: "string \<Rightarrow> string \<Rightarrow> bool" where
  "startsWith s p = (take (length p) s = p)"

definition endsWith :: "string \<Rightarrow> string \<Rightarrow> bool" where
  "endsWith s p = (length p \<le> length s \<and> drop (length s - length p) s = p)"

text \<open>\<open>s.replace(/^p\s*/, '')\<close> for a literal \<open>p\<close>: the prefix \<open>p\<close> and the white space
  after it are removed; no match leaves \<open>s\<close> as it is.\<close>

definition strip_open :: "string \<Rightarrow> string \<Rightarrow> string" where
  "strip_open p s = (if startsWith s p then dropWhile is_space (drop (length p) s) else s)"

text \<open>\<open>s.replace(/\s*```$/, '')\<close>: the leftmost match is the three back ticks that end the
  string together with all the white space before them.\<close>

definition strip_close :: "string \<Rightarrow> string" where
  "strip_close s =
     (if endsWith s ''```'' then rev (dropWhile is_space (drop 3 (rev s))) else s)"

definition cleanJson :: "string \<Rightarrow> string" where
  "cleanJson t =
     (let clean = trim t in
      if startsWith clean ''```json'' then strip_close (strip_open ''```json'' clean)
      else if startsWith clean ''```'' then strip_close (strip_open ''```'' clean)
      else clean)"

datatype error = MissingApiKey | OracleError string

text \<open>
  What \<open>ai.models.generateContent\<close> does with one request: the promise rejects (network,
  authentication), or it resolves with a response whose \<open>text\<close> may be undefined.
\<close>

datatype reply = Rejected string | Response "string option"

text \<open>
  The external service is a parameter: \<open>orc n t\<close> is its reply to request number
  \<open>n\<close>, whose prompt embeds the chunk \<open>t\<close> in the fixed instruction template.
  \<open>JSON.parse\<close> is a parameter too: \<open>None\<close> is its \<open>SyntaxError\<close>, and a value it returns
  is taken for the array the cast \<open>as VerificationItem[]\<close> says it is: an array of objects
  whose five fields are each a string or absent. A text that parses to any other value
  (an object, a number, an array of numbers) is not covered by the model.
\<close>

type_synonym oracle_call = "nat \<Rightarrow> string \<Rightarrow> reply"
type_synonym json_parse = "string \<Rightarrow> VerificationItem list option"

text \<open>Lines 89 to 99: from the response text to the value returned.\<close>

definition parseResponse :: "json_parse \<Rightarrow> string option \<Rightarrow> VerificationItem list" where
  "parseResponse JSON_parse jsonText =
     (case jsonText of
        None \<Rightarrow> []
      | Some t \<Rightarrow>
          if t = [] then []
          else (case JSON_parse (cleanJson t) of Some items \<Rightarrow> items | None \<Rightarrow> []))"

text \<open>\<open>sent\<close> is the list of requests dispatched so far; the call appends its own.
  \<open>Inl\<close> is the exception thrown.\<close>

definition verifyManuscript ::
  "oracle_call \<Rightarrow> json_parse \<Rightarrow> string \<Rightarrow> string \<Rightarrow> string list \<Rightarrow>
     (error + VerificationItem list) \<times> string list" where
  "verifyManuscript orc JSON_parse t key sent =
     (if key = [] then (Inl MissingApiKey, sent)
      else
        (case orc (length sent) t of
           Rejected msg \<Rightarrow> (Inl (OracleError msg), sent @ [t])
         | Response jsonText \<Rightarrow> (Inr (parseResponse JSON_parse jsonText), sent @ [t])))"

section \<open>Context stitcher (App.tsx, inside \<open>handleAnalyze\<close>)\<close>

definition is_digit :: "char \<Rightarrow> bool" where
  "is_digit c = (c \<in> set ''0123456789'')"

text \<open>The regular expression \<open>/\[P(\d+)\]/\<close> tried at the start of \<open>s\<close>: the match, if
  there is one. The digits are taken greedily; giving some back cannot help, since a
  digit is not a closing bracket.\<close>

definition match_marker :: "string \<Rightarrow> string option" where
  "match_marker s =
     (if take 2 s = ''[P'' then
        (let ds = takeWhile is_digit (drop 2 s); rest = dropWhile is_digit (drop 2 s) in
         if ds \<noteq> [] \<and> take 1 rest = '']'' then Some (''[P'' @ ds @ '']'') else None)
      else None)"

text \<open>\<open>[...s.matchAll(/\[P(\d+)\]/g)]\<close>, each match given by its text (element \<open>[0]\<close>):
  the scan tries every position from the left and resumes after a match.\<close>

function matchAll :: "string \<Rightarrow> string list" where
  "matchAll s =
     (if s = [] then []
      else (case match_marker s of
              Some m \<Rightarrow> m # matchAll (drop (length m) s)
            | None \<Rightarrow> matchAll (tl s)))"
  by pat_completeness auto
termination
  by (relation "measure length") (auto simp: match_marker_def Let_def split: if_splits)

declare matchAll.simps [simp del]

text \<open>Lines 175 to 186: the text sent for chunk number \<open>i\<close>.\<close>

definition annotate :: "string \<Rightarrow> nat \<Rightarrow> chunk \<Rightarrow> string" where
  "annotate fullText i c =
     (if 0 < i then
        (let textBefore = slice fullText 0 (startIndex c);
             matches = matchAll textBefore in
         if 0 < length matches then
           ''(Context: Continued from '' @ matches ! (length matches - 1) @ '')'' @ [newline] @
           chunk_text c
         else chunk_text c)
      else chunk_text c)"

text \<open>In the words of the specification: a positional marker is \<open>[P\<close>, one or more
  decimal digits, \<open>]\<close>; it occurs in \<open>t\<close> at position \<open>k\<close> when the characters of \<open>t\<close> from
  \<open>k\<close> on begin with it.\<close>

definition is_marker :: "string \<Rightarrow> bool" where
  "is_marker m =
     (4 \<le> length m \<and> take 2 m = ''[P'' \<and> last m = CHR '']'' \<and>
      (\<forall>d\<in>set (butlast (drop 2 m)). is_digit d))"

definition marker_at :: "string \<Rightarrow> nat \<Rightarrow> string \<Rightarrow> bool" where
  "marker_at t k m = (is_marker m \<and> take (length m) (drop k t) = m)"

section \<open>Orchestrator: \<open>handleAnalyze\<close> (App.tsx)\<close>

text \<open>The value of the \<open>progress\<close> state when it is not null; \<open>total_chunks\<close> is its field
  \<open>total\<close>.\<close>

record PipelineProgress =
  current :: nat
  total_chunks :: nat

text \<open>The component's state, and \<open>sent\<close>, the requests the service has received.\<close>

record app_state =
  inputText :: string
  apiKey :: string
  results :: "VerificationItem list"
  isProcessing :: bool
  error :: "string option"
  progress :: "PipelineProgress option"
  sent :: "string list"

text \<open>The \<open>for\<close> loop of the \<open>try\<close> block, from index \<open>i\<close>: the exception that ended it,
  if any, and the state at that point.\<close>

function processChunks ::
  "oracle_call \<Rightarrow> json_parse \<Rightarrow> chunk list \<Rightarrow> nat \<Rightarrow> app_state \<Rightarrow> error option \<times> app_state" where
  "processChunks orc JSON_parse chunks i st =
     (if i < length chunks then
        (let chunkContent = annotate (inputText st) i (chunks ! i) in
         case verifyManuscript orc JSON_parse chunkContent (apiKey st) (sent st) of
           (Inl err, sent') \<Rightarrow> (Some err, st\<lparr>sent := sent'\<rparr>)
         | (Inr chunkResults, sent') \<Rightarrow>
             processChunks orc JSON_parse chunks (i + 1)
               (st\<lparr>sent := sent',
                   results := results st @ chunkResults,
                   progress := Some \<lparr>current = i + 1, total_chunks = length chunks\<rparr>\<rparr>))
      else (None, st))"
  by pat_completeness auto
termination
  by (relation "measure (\<lambda>(orc, JSON_parse, chunks, i, st). length chunks - i)") auto

declare processChunks.simps [simp del]

text \<open>The message of the \<open>catch\<close> block.\<close>

definition run_error :: string where
  "run_error = ''Verification process encountered an error. Please check your API Key and try again.''"

text \<open>\<open>handleAnalyze\<close>: the state when the handler has returned; \<open>None\<close> if the
  segmentation does not return.\<close>

definition handleAnalyze :: "oracle_call \<Rightarrow> json_parse \<Rightarrow> app_state \<Rightarrow> app_state option" where
  "handleAnalyze orc JSON_parse st =
     (if apiKey st = [] then
        Some (st\<lparr>error := Some ''Please configure your Gemini API Key first.''\<rparr>)
      else if trim (inputText st) = [] then
        Some (st\<lparr>error := Some ''Please input or upload text to verify.''\<rparr>)
      else
        (let st1 = st\<lparr>error := None, isProcessing := True, results := [], progress := None\<rparr> in
         case createChunks (inputText st1) CHUNK_SIZE of
           None \<Rightarrow> None
         | Some chunks \<Rightarrow>
             (let st2 = st1\<lparr>progress := Some \<lparr>current = 0, total_chunks = length chunks\<rparr>\<rparr>;
                  (exn, st3) = processChunks orc JSON_parse chunks 0 st2;
                  st4 = (case exn of
                           Some err \<Rightarrow> st3\<lparr>error := Some run_error\<rparr>
                         | None \<Rightarrow> st3)
              in Some (st4\<lparr>isProcessing := False, progress := None\<rparr>))))"

section \<open>Sample inputs\<close>

text \<open>A text of 30001 characters without a line break: it is cut into two chunks.\<close>

definition two_chunk_text :: string where
  "two_chunk_text = replicate 30001 CHR ''a''"

definition sample_item :: VerificationItem where
  "sample_item = \<lparr>location = Some ''Page 1, Para 1'', quote_text = Some ''q'',
     claimed_source = None, status = Some ''ACCURATE'', notes' = Some ''n''\<rparr>"

definition sample_json :: string where
  "sample_json = ''[{'' @ quoted ''location'' @ '':'' @ quoted ''Page 1, Para 1'' @ '','' @
     quoted ''quote_text'' @ '':'' @ quoted ''q'' @ '','' @
     quoted ''status'' @ '':'' @ quoted ''ACCURATE'' @ '','' @
     quoted ''notes'' @ '':'' @ quoted ''n'' @ ''}]''"

text \<open>An item with a status outside the enumeration and without location and quote.\<close>

definition bogus_item :: VerificationItem where
  "bogus_item = \<lparr>location = None, quote_text = None, claimed_source = None,
     status = Some ''BOGUS'', notes' = None\<rparr>"

definition bogus_json :: string where
  "bogus_json = ''[{'' @ quoted ''status'' @ '':'' @ quoted ''BOGUS'' @ ''}]''"

text \<open>\<open>JSON.parse\<close> on the two sample texts; everything else is taken not to parse.\<close>

definition parse_fixture :: json_parse where
  "parse_fixture s =
     (if s = sample_json then Some [sample_item]
      else if s = bogus_json then Some [bogus_item]
      else None)"

text \<open>A service that answers the first request and rejects every later one; one that
  always answers with the out-of-schema item; one that always answers with prose.\<close>

definition fails_on_second :: oracle_call where
  "fails_on_second n t = (if n = 0 then Response (Some sample_json) else Rejected ''network'')"

definition returns_bogus :: oracle_call where
  "returns_bogus n t = Response (Some bogus_json)"

definition returns_garbage :: oracle_call where
  "returns_garbage n t = Response (Some ''I cannot answer'')"

text \<open>The text of the continuity example: two page markers, the second one at
  positions 11 to 14.\<close>

definition stitch_text :: string where
  "stitch_text = ''[P1]\<newline>Alpha\<newline>[P2]\<newline>Beta''"

text \<open>The state before a run: a text, a key, nothing else.\<close>

definition idle :: "string \<Rightarrow> app_state" where
  "idle t = \<lparr>inputText = t, apiKey = ''key'', results = [], isProcessing = False,
     error = None, progress = None, sent = []\<rparr>"

section \<open>Segmenter: properties\<close>

lemma lastIndexOf_le: "lastIndexOf s c k = Some j \<Longrightarrow> j \<le> k \<and> j < length s \<and> s ! j = c"
  by (induction k) (auto split: if_splits)

lemma lastIndexOf_nearest:
  "lastIndexOf s c k = Some j \<Longrightarrow> j < m \<Longrightarrow> m \<le> k \<Longrightarrow> m < length s \<Longrightarrow> s ! m \<noteq> c"
  by (induction k) (auto split: if_splits simp: le_Suc_eq)

lemma lastIndexOf_None:
  "lastIndexOf s c k = None \<Longrightarrow> m \<le> k \<Longrightarrow> m < length s \<Longrightarrow> s ! m \<noteq> c"
  by (induction k) (auto split: if_splits simp: le_Suc_eq)

lemma lastIndexOf_NoneI: "c \<notin> set s \<Longrightarrow> lastIndexOf s c k = None"
  by (induction k) auto

lemma chunk_end_le_length: "chunk_end txt sz i \<le> length txt"
  by (auto simp: chunk_end_def Let_def split: option.splits dest: lastIndexOf_le)

lemma chunk_end_le_size: "chunk_end txt sz i \<le> i + sz"
  by (auto simp: chunk_end_def Let_def split: option.splits dest!: lastIndexOf_le)

lemma chunk_end_gt: "0 < sz \<Longrightarrow> i < length txt \<Longrightarrow> i < chunk_end txt sz i"
  by (auto simp: chunk_end_def Let_def split: option.splits)

lemma createChunks_loop_total:
  "0 < sz \<Longrightarrow> \<exists>cs. createChunks_loop txt sz i acc = Some (acc @ cs) \<and> chunks_from txt sz i cs"
proof (induction "length txt - i" arbitrary: i acc rule: less_induct)
  case less
  show ?case
  proof (cases "i < length txt")
    case False
    then have "createChunks_loop txt sz i acc = Some (acc @ [])"
      by (subst createChunks_loop.simps) simp
    moreover from False have "chunks_from txt sz i []" by simp
    ultimately show ?thesis by blast
  next
    case True
    let ?e = "chunk_end txt sz i"
    let ?c = "\<lparr>chunk_text = slice txt i ?e, startIndex = i\<rparr>"
    from True less.prems have "i < ?e" by (rule_tac chunk_end_gt)
    with True have "length txt - ?e < length txt - i" by arith
    from less.hyps [OF this less.prems, of "acc @ [?c]"]
    obtain cs where cs: "createChunks_loop txt sz ?e (acc @ [?c]) = Some ((acc @ [?c]) @ cs)"
      and fr: "chunks_from txt sz ?e cs" by blast
    from True cs have "createChunks_loop txt sz i acc = Some (acc @ (?c # cs))"
      by (subst createChunks_loop.simps) simp
    moreover from True fr have "chunks_from txt sz i (?c # cs)" by simp
    ultimately show ?thesis by blast
  qed
qed

lemma chunk_end_ge: "i < length txt \<Longrightarrow> i \<le> chunk_end txt sz i"
  by (auto simp: chunk_end_def Let_def split: option.splits)

lemma slice_length: "a \<le> b \<Longrightarrow> b \<le> length s \<Longrightarrow> length (slice s a b) = b - a"
  by (simp add: slice_def)

lemma slice_drop: "a \<le> b \<Longrightarrow> slice s a b @ drop b s = drop a s"
proof -
  assume "a \<le> b"
  then have "drop b s = drop (b - a) (drop a s)" by simp
  then show ?thesis by (simp only: slice_def append_take_drop_id)
qed

lemma chunks_from_member:
  "chunks_from txt sz i cs \<Longrightarrow> c \<in> set cs \<Longrightarrow>
     startIndex c < length txt \<and> i \<le> startIndex c \<and>
     chunk_text c = slice txt (startIndex c) (chunk_end txt sz (startIndex c))"
proof (induction cs arbitrary: i)
  case Nil then show ?case by simp
next
  case (Cons d cs)
  show ?case
  proof (cases "c = d")
    case True with Cons.prems show ?thesis by simp
  next
    case False
    with Cons.prems have mem: "c \<in> set cs"
      and rest: "chunks_from txt sz (chunk_end txt sz i) cs" by simp_all
    from Cons.prems have "i \<le> chunk_end txt sz i" by (simp add: chunk_end_ge)
    with Cons.IH [OF rest mem] show ?thesis by simp
  qed
qed

lemma chunks_from_concat:
  "0 < sz \<Longrightarrow> chunks_from txt sz i cs \<Longrightarrow> concat (map chunk_text cs) = drop i txt"
proof (induction cs arbitrary: i)
  case Nil then show ?case by simp
next
  case (Cons c cs)
  then have "i < chunk_end txt sz i" by (simp add: chunk_end_gt)
  then have "slice txt i (chunk_end txt sz i) @ drop (chunk_end txt sz i) txt = drop i txt"
    by (simp add: slice_drop)
  moreover from Cons.prems have "chunks_from txt sz (chunk_end txt sz i) cs" by simp
  then have "concat (map chunk_text cs) = drop (chunk_end txt sz i) txt"
    using Cons.prems(1) by (intro Cons.IH)
  ultimately show ?case using Cons.prems by simp
qed

lemma chunks_from_offsets:
  "0 < sz \<Longrightarrow> chunks_from txt sz i cs \<Longrightarrow> k < length cs \<Longrightarrow>
     startIndex (cs ! k) = i + length (concat (map chunk_text (take k cs)))"
proof (induction cs arbitrary: i k)
  case Nil then show ?case by simp
next
  case (Cons c cs)
  show ?case
  proof (cases k)
    case 0 with Cons.prems show ?thesis by simp
  next
    case (Suc j)
    from Cons.prems have lt: "i < chunk_end txt sz i" by (simp add: chunk_end_gt)
    have len: "length (chunk_text c) = chunk_end txt sz i - i"
      using Cons.prems lt by (simp add: slice_length chunk_end_le_length)
    from Cons.prems Suc have "startIndex (cs ! j) =
        chunk_end txt sz i + length (concat (map chunk_text (take j cs)))"
      by (intro Cons.IH) simp_all
    with Suc len lt show ?thesis by simp
  qed
qed

lemma chunks_from_sorted:
  "0 < sz \<Longrightarrow> chunks_from txt sz i cs \<Longrightarrow> sorted_wrt (<) (map startIndex cs)"
proof (induction cs arbitrary: i)
  case Nil then show ?case by simp
next
  case (Cons c cs)
  then have lt: "i < chunk_end txt sz i" by (simp add: chunk_end_gt)
  from Cons.prems have fr: "chunks_from txt sz (chunk_end txt sz i) cs" by simp
  have "\<forall>d\<in>set cs. i < startIndex d"
  proof
    fix d assume "d \<in> set cs"
    from chunks_from_member [OF fr this] lt show "i < startIndex d" by simp
  qed
  with Cons.IH [OF Cons.prems(1) fr] Cons.prems show ?case by simp
qed


lemma lastIndexOf_Some_iff:
  "lastIndexOf s newline e = Some l \<longleftrightarrow> nearest_newline_back s e l"
proof
  assume "lastIndexOf s newline e = Some l"
  then show "nearest_newline_back s e l"
    unfolding nearest_newline_back_def
    using lastIndexOf_le [of s newline e l] lastIndexOf_nearest [of s newline e l]
    by auto
next
  assume "nearest_newline_back s e l"
  then show "lastIndexOf s newline e = Some l"
    unfolding nearest_newline_back_def
  proof (induction e)
    case 0 then show ?case by auto
  next
    case (Suc e)
    show ?case
    proof (cases "l = Suc e")
      case True with Suc.prems show ?thesis by simp
    next
      case False
      with Suc.prems have "l \<le> e" by simp
      moreover from Suc.prems False have "Suc e < length s \<longrightarrow> s ! Suc e \<noteq> newline" by auto
      moreover from Suc.prems have "\<forall>j\<in>{l<..e}. j < length s \<longrightarrow> s ! j \<noteq> newline" by auto
      ultimately show ?thesis using Suc.IH Suc.prems by auto
    qed
  qed
qed

lemma chunk_end_cut:
  assumes "i + sz < length txt"
  shows "(\<forall>l. nearest_newline_back txt (i + sz) l \<and> 10 * l > 10 * i + 9 * sz \<longrightarrow>
             chunk_end txt sz i = l) \<and>
         ((\<forall>l. nearest_newline_back txt (i + sz) l \<longrightarrow> \<not> 10 * l > 10 * i + 9 * sz) \<longrightarrow>
             chunk_end txt sz i = i + sz)"
  using assms
  by (auto simp: chunk_end_def Let_def min_def lastIndexOf_Some_iff [symmetric] split: option.splits)


lemma createChunks_chunks_from:
  "0 < sz \<Longrightarrow> \<exists>cs. createChunks txt sz = Some cs \<and> chunks_from txt sz 0 cs"
  using createChunks_loop_total [of sz "txt" 0 "[]"] by (simp add: createChunks_def)

text \<open>With a \<open>size\<close> of 0 the cursor never moves: on a non-empty text the loop does not
  return.\<close>

lemma chunk_end_zero: "i < length txt \<Longrightarrow> chunk_end txt 0 i = i"
  by (auto simp: chunk_end_def Let_def split: option.splits dest!: lastIndexOf_le)

lemma createChunks_loop_zero:
  assumes "createChunks_loop t sz i acc = Some r"
  shows "\<not> (sz = 0 \<and> i < length t)"
  using assms
proof (induct t sz i acc r rule: createChunks_loop.raw_induct [rotated 1, consumes 1])
  case (1 f t sz i acc r)
  show ?case
  proof
    assume a: "sz = 0 \<and> i < length t"
    with 1(2) have step: "f t 0 i (acc @ [\<lparr>chunk_text = slice t i i, startIndex = i\<rparr>]) = Some r"
      by (simp add: chunk_end_zero)
    from 1(1) [OF step] a show False by simp
  qed
qed

lemma createChunks_zero: "txt \<noteq> [] \<Longrightarrow> createChunks txt 0 = None"
  using createChunks_loop_zero [of "txt" 0 0 "[]"] by (cases "createChunks txt 0") (auto simp: createChunks_def)

text \<open>
  Claim C1. For every text and every positive \<open>size\<close>, \<open>createChunks\<close> returns, and the
  chunks it returns, concatenated in order, are the text itself; the \<open>startIndex\<close> of each
  chunk is the number of characters in the chunks before it, that is, the offset of its
  first character in the text; the start indices increase strictly along the list, so
  the chunks neither overlap nor leave a gap.
\<close>

theorem createChunks_reconstructs:
  assumes "0 < sz"
  shows "\<exists>cs. createChunks txt sz = Some cs \<and>
           concat (map chunk_text cs) = txt \<and>
           (\<forall>k<length cs. startIndex (cs ! k) = length (concat (map chunk_text (take k cs)))) \<and>
           sorted_wrt (<) (map startIndex cs)"
proof -
  from createChunks_chunks_from [OF assms] obtain cs
    where cs: "createChunks txt sz = Some cs" and fr: "chunks_from txt sz 0 cs" by blast
  from chunks_from_concat [OF assms fr] have "concat (map chunk_text cs) = txt" by simp
  moreover have "\<forall>k<length cs. startIndex (cs ! k) = length (concat (map chunk_text (take k cs)))"
    using chunks_from_offsets [OF assms fr] by simp
  moreover note chunks_from_sorted [OF assms fr]
  ultimately show ?thesis using cs by blast
qed

theorem createChunks_reconstructs_witness:
  "(0::nat) < 4 \<and>
   createChunks ''ab\<newline>cdefghi'' 4 =
     Some [\<lparr>chunk_text = ''ab\<newline>c'', startIndex = 0\<rparr>,
           \<lparr>chunk_text = ''defg'', startIndex = 4\<rparr>,
           \<lparr>chunk_text = ''hi'', startIndex = 8\<rparr>] \<and>
   (\<exists>cs. createChunks ''ab\<newline>cdefghi'' 4 = Some cs \<and>
      concat (map chunk_text cs) = ''ab\<newline>cdefghi'' \<and>
      (\<forall>k<length cs. startIndex (cs ! k) = length (concat (map chunk_text (take k cs)))) \<and>
      sorted_wrt (<) (map startIndex cs))"
proof -
  have pos: "(0::nat) < 4" by simp
  have ev: "createChunks ''ab\<newline>cdefghi'' 4 =
     Some [\<lparr>chunk_text = ''ab\<newline>c'', startIndex = 0\<rparr>,
           \<lparr>chunk_text = ''defg'', startIndex = 4\<rparr>,
           \<lparr>chunk_text = ''hi'', startIndex = 8\<rparr>]"
    by code_simp
  from pos ev createChunks_reconstructs [OF pos, of "''ab\<newline>cdefghi''"] show ?thesis
    by blast
qed

text \<open>
  Claim C7. For every text and every positive \<open>size\<close>, every chunk \<open>createChunks\<close> returns
  has a text of at most \<open>size\<close> characters.
\<close>

theorem createChunks_bound:
  assumes "0 < sz"
  shows "\<exists>cs. createChunks txt sz = Some cs \<and> (\<forall>c\<in>set cs. length (chunk_text c) \<le> sz)"
proof -
  from createChunks_chunks_from [OF assms] obtain cs
    where cs: "createChunks txt sz = Some cs" and fr: "chunks_from txt sz 0 cs" by blast
  have "\<forall>c\<in>set cs. length (chunk_text c) \<le> sz"
  proof
    fix c assume "c \<in> set cs"
    from chunks_from_member [OF fr this]
    have "chunk_text c = slice txt (startIndex c) (chunk_end txt sz (startIndex c))" by simp
    moreover have "chunk_end txt sz (startIndex c) \<le> startIndex c + sz"
      by (rule chunk_end_le_size)
    ultimately show "length (chunk_text c) \<le> sz" by (simp add: slice_def)
  qed
  with cs show ?thesis by blast
qed

theorem createChunks_bound_witness:
  "(0::nat) < 4 \<and>
   (\<exists>cs. createChunks ''ab\<newline>cdefghi'' 4 = Some cs \<and> (\<forall>c\<in>set cs. length (chunk_text c) \<le> 4))"
proof -
  have pos: "(0::nat) < 4" by simp
  from pos createChunks_bound [OF pos, of "''ab\<newline>cdefghi''"] show ?thesis by blast
qed

text \<open>
  Claim C10. For every text and every \<open>size\<close> of at least 1, each iteration of the loop moves
  the cursor forward: the hard candidate \<open>min (i + size) length\<close> is past the cursor, an
  end other than the hard candidate is a line break strictly after \<open>i + 0.9 * size\<close>, and
  so the chosen end is past the cursor and within the text. Hence the loop ends and
  \<open>createChunks\<close> returns a list.
\<close>

theorem createChunks_terminates:
  assumes "1 \<le> sz"
  shows "(\<forall>i<length txt.
            i < min (i + sz) (length txt) \<and>
            (chunk_end txt sz i \<noteq> min (i + sz) (length txt) \<longrightarrow>
               10 * i + 9 * sz < 10 * chunk_end txt sz i) \<and>
            i < chunk_end txt sz i \<and> chunk_end txt sz i \<le> length txt) \<and>
         (\<exists>cs. createChunks txt sz = Some cs)"
proof -
  from assms have pos: "0 < sz" by simp
  have "\<forall>i<length txt.
            i < min (i + sz) (length txt) \<and>
            (chunk_end txt sz i \<noteq> min (i + sz) (length txt) \<longrightarrow>
               10 * i + 9 * sz < 10 * chunk_end txt sz i) \<and>
            i < chunk_end txt sz i \<and> chunk_end txt sz i \<le> length txt"
    using pos chunk_end_gt [OF pos] chunk_end_le_length [of "txt" sz]
    by (auto simp: chunk_end_def Let_def split: option.splits)
  moreover from createChunks_chunks_from [OF pos] have "\<exists>cs. createChunks txt sz = Some cs"
    by blast
  ultimately show ?thesis by blast
qed

theorem createChunks_terminates_witness:
  "(1::nat) \<le> 1 \<and> (\<exists>cs. createChunks ''ab\<newline>cdefghi'' 1 = Some cs)"
proof -
  have h: "(1::nat) \<le> 1" by simp
  from h createChunks_terminates [OF h, of "''ab\<newline>cdefghi''"] show ?thesis by blast
qed

text \<open>
  Claim C6, as amended. For every text and every positive \<open>size\<close>, take a chunk whose hard
  candidate end, start plus \<open>size\<close>, is strictly before the end of the text. If the
  nearest line break found searching backward from the candidate lies strictly after
  start plus \<open>0.9 * size\<close>, the chunk ends at that line break; if there is no line break
  there (none at all, or the nearest one is at or before start plus \<open>0.9 * size\<close>), the
  chunk ends at the hard boundary start plus \<open>size\<close>.
\<close>

theorem createChunks_cut:
  assumes "0 < sz"
  shows "\<exists>cs. createChunks txt sz = Some cs \<and>
          (\<forall>c\<in>set cs. startIndex c + sz < length txt \<longrightarrow>
             (\<forall>l. nearest_newline_back txt (startIndex c + sz) l \<and>
                   10 * startIndex c + 9 * sz < 10 * l \<longrightarrow>
                   startIndex c + length (chunk_text c) = l) \<and>
             ((\<forall>l. nearest_newline_back txt (startIndex c + sz) l \<longrightarrow>
                   \<not> 10 * startIndex c + 9 * sz < 10 * l) \<longrightarrow>
                   startIndex c + length (chunk_text c) = startIndex c + sz))"
proof -
  from createChunks_chunks_from [OF assms] obtain cs
    where cs: "createChunks txt sz = Some cs" and fr: "chunks_from txt sz 0 cs" by blast
  have "\<forall>c\<in>set cs. startIndex c + sz < length txt \<longrightarrow>
             (\<forall>l. nearest_newline_back txt (startIndex c + sz) l \<and>
                   10 * startIndex c + 9 * sz < 10 * l \<longrightarrow>
                   startIndex c + length (chunk_text c) = l) \<and>
             ((\<forall>l. nearest_newline_back txt (startIndex c + sz) l \<longrightarrow>
                   \<not> 10 * startIndex c + 9 * sz < 10 * l) \<longrightarrow>
                   startIndex c + length (chunk_text c) = startIndex c + sz)"
  proof (intro ballI impI)
    fix c assume c: "c \<in> set cs" and far: "startIndex c + sz < length txt"
    let ?i = "startIndex c"
    from chunks_from_member [OF fr c]
    have lt: "?i < length txt" and tx: "chunk_text c = slice txt ?i (chunk_end txt sz ?i)"
      by simp_all
    from lt have "?i \<le> chunk_end txt sz ?i" by (rule chunk_end_ge)
    then have "?i + length (chunk_text c) = chunk_end txt sz ?i"
      using tx chunk_end_le_length [of "txt" sz ?i] by (simp add: slice_length)
    with chunk_end_cut [OF far]
    show "(\<forall>l. nearest_newline_back txt (?i + sz) l \<and> 10 * ?i + 9 * sz < 10 * l \<longrightarrow>
                   ?i + length (chunk_text c) = l) \<and>
             ((\<forall>l. nearest_newline_back txt (?i + sz) l \<longrightarrow> \<not> 10 * ?i + 9 * sz < 10 * l) \<longrightarrow>
                   ?i + length (chunk_text c) = ?i + sz)"
      by simp
  qed
  with cs show ?thesis by blast
qed


theorem createChunks_cut_witness:
  "(0::nat) < 20 \<and>
   createChunks ''aaaaaaaaaaaaaaaaaaa\<newline>bbbbb'' 20 =
     Some [\<lparr>chunk_text = ''aaaaaaaaaaaaaaaaaaa'', startIndex = 0\<rparr>,
           \<lparr>chunk_text = ''\<newline>bbbbb'', startIndex = 19\<rparr>] \<and>
   0 + 20 < length ''aaaaaaaaaaaaaaaaaaa\<newline>bbbbb'' \<and>
   nearest_newline_back ''aaaaaaaaaaaaaaaaaaa\<newline>bbbbb'' (0 + 20) 19 \<and>
   (10::nat) * 0 + 9 * 20 < 10 * 19 \<and>
   0 + length ''aaaaaaaaaaaaaaaaaaa'' = (19::nat)"
proof -
  let ?t = "''aaaaaaaaaaaaaaaaaaa\<newline>bbbbb''"
  let ?c = "\<lparr>chunk_text = ''aaaaaaaaaaaaaaaaaaa'', startIndex = 0\<rparr>"
  let ?d = "\<lparr>chunk_text = ''\<newline>bbbbb'', startIndex = 19\<rparr>"
  have pos: "(0::nat) < 20" by simp
  have ev: "createChunks ?t 20 = Some [?c, ?d]"
    by code_simp
  have far: "startIndex ?c + 20 < length ?t" by simp
  have nl: "nearest_newline_back ?t (startIndex ?c + 20) 19"
    by (simp add: nearest_newline_back_def newline_def)
  have win: "10 * startIndex ?c + 9 * 20 < 10 * (19::nat)" by simp
  from createChunks_cut [OF pos, of ?t] obtain cs where cs: "createChunks ?t 20 = Some cs"
    and cut: "\<forall>c\<in>set cs. startIndex c + 20 < length ?t \<longrightarrow>
          (\<forall>l. nearest_newline_back ?t (startIndex c + 20) l \<and>
                10 * startIndex c + 9 * 20 < 10 * l \<longrightarrow>
                startIndex c + length (chunk_text c) = l) \<and>
          ((\<forall>l. nearest_newline_back ?t (startIndex c + 20) l \<longrightarrow>
                \<not> 10 * startIndex c + 9 * 20 < 10 * l) \<longrightarrow>
                startIndex c + length (chunk_text c) = startIndex c + 20)"
    by (elim exE conjE)
  from cs ev have "cs = [?c, ?d]" by simp
  then have "?c \<in> set cs" by simp
  from bspec [OF cut this, THEN mp, OF far, THEN conjunct1, THEN spec, of 19]
  have "nearest_newline_back ?t (startIndex ?c + 20) 19 \<and>
                10 * startIndex ?c + 9 * 20 < 10 * 19 \<longrightarrow>
                startIndex ?c + length (chunk_text ?c) = 19" .
  with nl win have "startIndex ?c + length (chunk_text ?c) = 19" by (elim impE) (rule conjI)
  with pos ev far nl win show ?thesis by simp
qed


text \<open>
  Claim C6 as stated fails where the nearest line break lies exactly at start plus
  \<open>0.9 * size\<close>: with \<open>size = 10\<close> and the only line break at index 9, the first chunk
  is cut at the hard boundary 10, not at the line break.
\<close>

theorem createChunks_cut_counterexample:
  "0 + 10 < length ''aaaaaaaaa\<newline>bbbbb'' \<and>
   nearest_newline_back ''aaaaaaaaa\<newline>bbbbb'' (0 + 10) 9 \<and>
   (10::nat) * 0 + 9 * 10 \<le> 10 * 9 \<and>
   createChunks ''aaaaaaaaa\<newline>bbbbb'' 10 =
     Some [\<lparr>chunk_text = ''aaaaaaaaa\<newline>'', startIndex = 0\<rparr>,
           \<lparr>chunk_text = ''bbbbb'', startIndex = 10\<rparr>]"
proof -
  have "nearest_newline_back ''aaaaaaaaa\<newline>bbbbb'' (0 + 10) 9"
    by (simp add: nearest_newline_back_def newline_def)
  moreover have "createChunks ''aaaaaaaaa\<newline>bbbbb'' 10 =
     Some [\<lparr>chunk_text = ''aaaaaaaaa\<newline>'', startIndex = 0\<rparr>,
           \<lparr>chunk_text = ''bbbbb'', startIndex = 10\<rparr>]" by code_simp
  ultimately show ?thesis by simp
qed


section \<open>Aggregator: properties\<close>

lemma count_status_total: "total (count_status r s) = total s"
  by (simp add: count_status_def)

lemma count_status_accurate:
  "accurate (count_status r s) = accurate s + (if status r = Some ACCURATE then 1 else 0)"
  by (simp add: count_status_def)

lemma count_status_paraphrased:
  "paraphrased (count_status r s) = paraphrased s + (if status r = Some PARAPHRASED then 1 else 0)"
  by (simp add: count_status_def ACCURATE_def PARAPHRASED_def)

lemma count_status_misattributed:
  "misattributed (count_status r s) =
     misattributed s + (if status r = Some MISATTRIBUTED then 1 else 0)"
  by (simp add: count_status_def ACCURATE_def PARAPHRASED_def MISATTRIBUTED_def)

lemma count_status_unverifiable:
  "unverifiable (count_status r s) =
     unverifiable s + (if status r = Some UNVERIFIABLE then 1 else 0)"
  by (simp add: count_status_def ACCURATE_def PARAPHRASED_def MISATTRIBUTED_def UNVERIFIABLE_def)

lemma fold_count_total: "total (fold count_status rs s) = total s"
  by (induction rs arbitrary: s) (simp_all add: count_status_total)

lemma fold_count_accurate:
  "accurate (fold count_status rs s) =
     accurate s + length (filter (\<lambda>r. status r = Some ACCURATE) rs)"
  by (induction rs arbitrary: s) (simp_all add: count_status_accurate)

lemma fold_count_paraphrased:
  "paraphrased (fold count_status rs s) =
     paraphrased s + length (filter (\<lambda>r. status r = Some PARAPHRASED) rs)"
  by (induction rs arbitrary: s) (simp_all add: count_status_paraphrased)

lemma fold_count_misattributed:
  "misattributed (fold count_status rs s) =
     misattributed s + length (filter (\<lambda>r. status r = Some MISATTRIBUTED) rs)"
  by (induction rs arbitrary: s) (simp_all add: count_status_misattributed)

lemma fold_count_unverifiable:
  "unverifiable (fold count_status rs s) =
     unverifiable s + length (filter (\<lambda>r. status r = Some UNVERIFIABLE) rs)"
  by (induction rs arbitrary: s) (simp_all add: count_status_unverifiable)

lemma status_partition:
  assumes "\<forall>r\<in>set rs. \<exists>v\<in>CheckStatus. status r = Some v"
  shows "length (filter (\<lambda>r. status r = Some ACCURATE) rs) +
         length (filter (\<lambda>r. status r = Some PARAPHRASED) rs) +
         length (filter (\<lambda>r. status r = Some MISATTRIBUTED) rs) +
         length (filter (\<lambda>r. status r = Some UNVERIFIABLE) rs) = length rs"
  using assms
proof (induction rs)
  case Nil then show ?case by simp
next
  case (Cons r rs)
  from Cons.prems have "status r = Some ACCURATE \<or> status r = Some PARAPHRASED \<or>
      status r = Some MISATTRIBUTED \<or> status r = Some UNVERIFIABLE"
    by (auto simp: CheckStatus_def)
  moreover have "ACCURATE \<noteq> PARAPHRASED" "ACCURATE \<noteq> MISATTRIBUTED" "ACCURATE \<noteq> UNVERIFIABLE"
    "PARAPHRASED \<noteq> MISATTRIBUTED" "PARAPHRASED \<noteq> UNVERIFIABLE" "MISATTRIBUTED \<noteq> UNVERIFIABLE"
    by (simp_all add: ACCURATE_def PARAPHRASED_def MISATTRIBUTED_def UNVERIFIABLE_def)
  moreover from Cons have "length (filter (\<lambda>r. status r = Some ACCURATE) rs) +
         length (filter (\<lambda>r. status r = Some PARAPHRASED) rs) +
         length (filter (\<lambda>r. status r = Some MISATTRIBUTED) rs) +
         length (filter (\<lambda>r. status r = Some UNVERIFIABLE) rs) = length rs" by simp
  ultimately show ?case by auto
qed

text \<open>
  Claim C8. For every finite sequence of items whose statuses all belong to the four-value
  enumeration, \<open>stats\<close> returns a \<open>total\<close> equal to the length of the sequence and four
  category counts that sum to \<open>total\<close>; each count is the number of items of the whole
  sequence carrying that status; the empty sequence gives all-zero counts.
\<close>

theorem stats_invariant:
  assumes "\<forall>r\<in>set items. \<exists>v\<in>CheckStatus. status r = Some v"
  shows "total (stats items) = length items \<and>
         accurate (stats items) + paraphrased (stats items) + misattributed (stats items) +
           unverifiable (stats items) = total (stats items) \<and>
         accurate (stats items) = length (filter (\<lambda>r. status r = Some ACCURATE) items) \<and>
         paraphrased (stats items) = length (filter (\<lambda>r. status r = Some PARAPHRASED) items) \<and>
         misattributed (stats items) = length (filter (\<lambda>r. status r = Some MISATTRIBUTED) items) \<and>
         unverifiable (stats items) = length (filter (\<lambda>r. status r = Some UNVERIFIABLE) items) \<and>
         stats [] = \<lparr>accurate = 0, paraphrased = 0, misattributed = 0, unverifiable = 0, total = 0\<rparr>"
  using status_partition [OF assms]
  by (simp add: stats_def fold_count_total fold_count_accurate fold_count_paraphrased
        fold_count_misattributed fold_count_unverifiable)


theorem stats_invariant_witness:
  "set (map status [\<lparr>location = Some ''p1'', quote_text = Some ''q'', claimed_source = None,
                 status = Some ACCURATE, notes' = Some ''n''\<rparr>,
                \<lparr>location = Some ''p2'', quote_text = Some ''r'', claimed_source = Some ''s'',
                 status = Some UNVERIFIABLE, notes' = Some ''''\<rparr>,
                \<lparr>location = Some ''p3'', quote_text = Some ''t'', claimed_source = None,
                 status = Some ACCURATE, notes' = Some ''m''\<rparr>]) \<subseteq> Some ` CheckStatus \<and>
   total (stats [\<lparr>location = Some ''p1'', quote_text = Some ''q'', claimed_source = None,
                 status = Some ACCURATE, notes' = Some ''n''\<rparr>,
                \<lparr>location = Some ''p2'', quote_text = Some ''r'', claimed_source = Some ''s'',
                 status = Some UNVERIFIABLE, notes' = Some ''''\<rparr>,
                \<lparr>location = Some ''p3'', quote_text = Some ''t'', claimed_source = None,
                 status = Some ACCURATE, notes' = Some ''m''\<rparr>]) = 3 \<and>
   accurate (stats [\<lparr>location = Some ''p1'', quote_text = Some ''q'', claimed_source = None,
                 status = Some ACCURATE, notes' = Some ''n''\<rparr>,
                \<lparr>location = Some ''p2'', quote_text = Some ''r'', claimed_source = Some ''s'',
                 status = Some UNVERIFIABLE, notes' = Some ''''\<rparr>,
                \<lparr>location = Some ''p3'', quote_text = Some ''t'', claimed_source = None,
                 status = Some ACCURATE, notes' = Some ''m''\<rparr>]) = 2"
  using stats_invariant
    [of "[\<lparr>location = Some ''p1'', quote_text = Some ''q'', claimed_source = None,
                 status = Some ACCURATE, notes' = Some ''n''\<rparr>,
                \<lparr>location = Some ''p2'', quote_text = Some ''r'', claimed_source = Some ''s'',
                 status = Some UNVERIFIABLE, notes' = Some ''''\<rparr>,
                \<lparr>location = Some ''p3'', quote_text = Some ''t'', claimed_source = None,
                 status = Some ACCURATE, notes' = Some ''m''\<rparr>]"]
  by (auto simp: CheckStatus_def ACCURATE_def UNVERIFIABLE_def)

section \<open>Exporter: properties\<close>

lemma join_Cons: "join (x # xs) sep = x @ concat (map (\<lambda>y. sep @ y) xs)"
  by (induction xs arbitrary: x) simp_all

lemma join_headers: "join headers '','' = ''Location,Quote,Claimed Source,Status,Notes''"
  by (simp add: headers_def)

lemma undouble_escape:
  "undouble (concat (map (\<lambda>c. if c = dquote then [dquote, dquote] else [c]) s)) = s"
proof (induction s)
  case Nil then show ?case by simp
next
  case (Cons c s)
  show ?case
  proof (cases "c = dquote")
    case True with Cons show ?thesis by simp
  next
    case False
    with Cons show ?thesis
      by (cases "concat (map (\<lambda>c. if c = dquote then [dquote, dquote] else [c]) s)") auto
  qed
qed

lemma filter_escape:
  "filter (\<lambda>c. c \<noteq> dquote) (concat (map (\<lambda>c. if c = dquote then [dquote, dquote] else [c]) s)) =
   filter (\<lambda>c. c \<noteq> dquote) s"
  by (induction s) simp_all

lemma count_escape:
  "length (filter (\<lambda>c. c = dquote) (concat (map (\<lambda>c. if c = dquote then [dquote, dquote] else [c]) s))) =
   2 * length (filter (\<lambda>c. c = dquote) s)"
  by (induction s) simp_all

text \<open>
  Claim C9. \<open>handleExportCSV\<close> produces nothing for an empty result set. For a non-empty
  one it produces the header row of the literal column names
  \<open>Location,Quote,Claimed Source,Status,Notes\<close>, then, each after a newline, one row per
  item in the order of the result set, the fields in the order location, quote_text,
  claimed_source, status, notes, separated by commas. Every field is its text between two
  double quotes, with each double quote of the text doubled and every other character
  passed through as it is (so that reading doubled quotes back gives the text); a field
  that is absent is written as two double quotes. The notes \<open>He said\<close>, \<open>stop\<close> between
  double quotes, full stop, become a field in which each of these two double quotes is
  doubled, the whole between double quotes.
\<close>

theorem handleExportCSV_format:
  "handleExportCSV [] = None \<and>
   (items \<noteq> [] \<longrightarrow>
      handleExportCSV items =
        Some (''Location,Quote,Claimed Source,Status,Notes'' @
              concat (map (\<lambda>r. [newline] @ escape (location r) @ '','' @ escape (quote_text r) @
                                 '','' @ escape (claimed_source r) @ '','' @ escape (status r) @
                                 '','' @ escape (notes' r)) items))) \<and>
   (\<exists>body. escape (Some s) = [dquote] @ body @ [dquote] \<and>
      undouble body = s \<and>
      filter (\<lambda>c. c \<noteq> dquote) body = filter (\<lambda>c. c \<noteq> dquote) s \<and>
      length (filter (\<lambda>c. c = dquote) body) = 2 * length (filter (\<lambda>c. c = dquote) s)) \<and>
   escape None = [dquote, dquote] \<and>
   escape (Some (''He said '' @ [dquote] @ ''stop'' @ [dquote] @ ''.'')) =
     [dquote] @ ''He said '' @ [dquote, dquote] @ ''stop'' @ [dquote, dquote] @ ''.'' @ [dquote]"
proof (intro conjI impI)
  show "handleExportCSV [] = None" by (simp add: handleExportCSV_def)
next
  assume "items \<noteq> []"
  then show "handleExportCSV items =
        Some (''Location,Quote,Claimed Source,Status,Notes'' @
              concat (map (\<lambda>r. [newline] @ escape (location r) @ '','' @ escape (quote_text r) @
                                 '','' @ escape (claimed_source r) @ '','' @ escape (status r) @
                                 '','' @ escape (notes' r)) items))"
    by (simp add: handleExportCSV_def join_Cons join_headers csv_row_def comp_def)
next
  let ?body = "concat (map (\<lambda>c. if c = dquote then [dquote, dquote] else [c]) s)"
  have "escape (Some s) = [dquote] @ ?body @ [dquote]" by (simp add: escape_def)
  with undouble_escape [of s] filter_escape [of s] count_escape [of s]
  show "\<exists>body. escape (Some s) = [dquote] @ body @ [dquote] \<and>
      undouble body = s \<and>
      filter (\<lambda>c. c \<noteq> dquote) body = filter (\<lambda>c. c \<noteq> dquote) s \<and>
      length (filter (\<lambda>c. c = dquote) body) = 2 * length (filter (\<lambda>c. c = dquote) s)"
    by blast
next
  show "escape None = [dquote, dquote]" by (simp add: escape_def)
next
  show "escape (Some (''He said '' @ [dquote] @ ''stop'' @ [dquote] @ ''.'')) =
     [dquote] @ ''He said '' @ [dquote, dquote] @ ''stop'' @ [dquote, dquote] @ ''.'' @ [dquote]"
    by (simp add: escape_def dquote_def)
qed


theorem handleExportCSV_format_witness:
  "[\<lparr>location = Some ''Page 5, Para 2'', quote_text = Some ''a, b'', claimed_source = None,
      status = Some ACCURATE,
      notes' = Some (''He said '' @ [dquote] @ ''stop'' @ [dquote] @ ''.'')\<rparr>] \<noteq> [] \<and>
   handleExportCSV
     [\<lparr>location = Some ''Page 5, Para 2'', quote_text = Some ''a, b'', claimed_source = None,
       status = Some ACCURATE,
       notes' = Some (''He said '' @ [dquote] @ ''stop'' @ [dquote] @ ''.'')\<rparr>] =
     Some (''Location,Quote,Claimed Source,Status,Notes'' @ [newline] @
           quoted ''Page 5, Para 2'' @ '','' @ quoted ''a, b'' @ '','' @ quoted '''' @ '','' @
           quoted ''ACCURATE'' @ '','' @
           quoted (''He said '' @ [dquote, dquote] @ ''stop'' @ [dquote, dquote] @ ''.''))"
  using handleExportCSV_format
    [of "[\<lparr>location = Some ''Page 5, Para 2'', quote_text = Some ''a, b'', claimed_source = None,
      status = Some ACCURATE,
      notes' = Some (''He said '' @ [dquote] @ ''stop'' @ [dquote] @ ''.'')\<rparr>]"]
  by (simp add: escape_def quoted_def dquote_def newline_def ACCURATE_def)

section \<open>Oracle adapter and orchestrator: properties\<close>

lemma verifyManuscript_Response:
  "key \<noteq> [] \<Longrightarrow> orc (length snt) t = Response jsonText \<Longrightarrow>
     verifyManuscript orc JSON_parse t key snt = (Inr (parseResponse JSON_parse jsonText), snt @ [t])"
  by (simp add: verifyManuscript_def)

lemma verifyManuscript_Rejected:
  "key \<noteq> [] \<Longrightarrow> orc (length snt) t = Rejected msg \<Longrightarrow>
     verifyManuscript orc JSON_parse t key snt = (Inl (OracleError msg), snt @ [t])"
  by (simp add: verifyManuscript_def)

lemma processChunks_done:
  "length chunks \<le> i \<Longrightarrow> processChunks orc JSON_parse chunks i st = (None, st)"
  by (subst processChunks.simps) simp

lemma processChunks_success:
  assumes "i < length chunks" and "apiKey st \<noteq> []"
    and "orc (length (sent st)) (annotate (inputText st) i (chunks ! i)) = Response jsonText"
  shows "processChunks orc JSON_parse chunks i st =
           processChunks orc JSON_parse chunks (i + 1)
             (st\<lparr>sent := sent st @ [annotate (inputText st) i (chunks ! i)],
                 results := results st @ parseResponse JSON_parse jsonText,
                 progress := Some \<lparr>current = i + 1, total_chunks = length chunks\<rparr>\<rparr>)"
  using assms
  by (subst processChunks.simps) (simp add: verifyManuscript_Response Let_def)

lemma processChunks_failure:
  assumes "i < length chunks" and "apiKey st \<noteq> []"
    and "orc (length (sent st)) (annotate (inputText st) i (chunks ! i)) = Rejected msg"
  shows "processChunks orc JSON_parse chunks i st =
           (Some (OracleError msg), st\<lparr>sent := sent st @ [annotate (inputText st) i (chunks ! i)]\<rparr>)"
  using assms
  by (subst processChunks.simps) (simp add: verifyManuscript_Rejected Let_def)

lemma processChunks_prefix:
  assumes "apiKey st \<noteq> []" and "i \<le> k" and "k \<le> length chunks"
    and "\<forall>j. i \<le> j \<and> j < k \<longrightarrow>
           orc (length (sent st) + (j - i)) (annotate (inputText st) j (chunks ! j)) = Response (r j)"
  shows "processChunks orc JSON_parse chunks i st =
           processChunks orc JSON_parse chunks k
             (st\<lparr>sent := sent st @ map (\<lambda>j. annotate (inputText st) j (chunks ! j)) [i..<k],
                 results := results st @ concat (map (\<lambda>j. parseResponse JSON_parse (r j)) [i..<k]),
                 progress := (if i = k then progress st
                              else Some \<lparr>current = k, total_chunks = length chunks\<rparr>)\<rparr>)"
  using assms
proof (induction "k - i" arbitrary: i st)
  case 0
  then show ?case by simp
next
  case (Suc d)
  let ?a = "\<lambda>j. annotate (inputText st) j (chunks ! j)"
  let ?st1 = "st\<lparr>sent := sent st @ [?a i],
                 results := results st @ parseResponse JSON_parse (r i),
                 progress := Some \<lparr>current = i + 1, total_chunks = length chunks\<rparr>\<rparr>"
  from Suc.hyps(2) have ik: "i < k" by simp
  with Suc.prems have il: "i < length chunks" by simp
  from Suc.prems(4) ik have "orc (length (sent st)) (?a i) = Response (r i)"
    by (metis diff_self_eq_0 add_0_right le_refl)
  with il Suc.prems(1)
  have step: "processChunks orc JSON_parse chunks i st = processChunks orc JSON_parse chunks (Suc i) ?st1"
    by (simp add: processChunks_success)
  have d: "d = k - Suc i" using Suc.hyps(2) by simp
  have key1: "apiKey ?st1 \<noteq> []" using Suc.prems(1) by simp
  have le1: "Suc i \<le> k" using ik by simp
  have orc1: "\<forall>j. Suc i \<le> j \<and> j < k \<longrightarrow>
           orc (length (sent ?st1) + (j - Suc i)) (annotate (inputText ?st1) j (chunks ! j)) = Response (r j)"
  proof (intro allI impI)
    fix j assume j: "Suc i \<le> j \<and> j < k"
    have e1: "length (sent ?st1) = Suc (length (sent st))" by simp
    have e2: "inputText ?st1 = inputText st" by simp
    from j have e3: "Suc (length (sent st)) + (j - Suc i) = length (sent st) + (j - i)" by arith
    from j have "i \<le> j \<and> j < k" by simp
    with Suc.prems(4) have "orc (length (sent st) + (j - i)) (?a j) = Response (r j)" by blast
    then show "orc (length (sent ?st1) + (j - Suc i)) (annotate (inputText ?st1) j (chunks ! j)) = Response (r j)"
      unfolding e1 e2 e3 .
  qed
  have upt1: "[i..<k] = i # [Suc i..<k]" using ik by (simp add: upt_conv_Cons)
  from Suc.hyps(1) [OF d key1 le1 Suc.prems(3) orc1]
  have "processChunks orc JSON_parse chunks (Suc i) ?st1 =
          processChunks orc JSON_parse chunks k
             (?st1\<lparr>sent := sent ?st1 @ map (\<lambda>j. annotate (inputText ?st1) j (chunks ! j)) [Suc i..<k],
                 results := results ?st1 @ concat (map (\<lambda>j. parseResponse JSON_parse (r j)) [Suc i..<k]),
                 progress := (if Suc i = k then progress ?st1
                              else Some \<lparr>current = k, total_chunks = length chunks\<rparr>)\<rparr>)" .
  also have "(?st1\<lparr>sent := sent ?st1 @ map (\<lambda>j. annotate (inputText ?st1) j (chunks ! j)) [Suc i..<k],
                 results := results ?st1 @ concat (map (\<lambda>j. parseResponse JSON_parse (r j)) [Suc i..<k]),
                 progress := (if Suc i = k then progress ?st1
                              else Some \<lparr>current = k, total_chunks = length chunks\<rparr>)\<rparr>) =
             (st\<lparr>sent := sent st @ map ?a [i..<k],
                 results := results st @ concat (map (\<lambda>j. parseResponse JSON_parse (r j)) [i..<k]),
                 progress := (if i = k then progress st
                              else Some \<lparr>current = k, total_chunks = length chunks\<rparr>)\<rparr>)"
    using ik by (auto simp: upt1)
  finally show ?case using step by simp
qed

lemma handleAnalyze_run:
  assumes "apiKey st \<noteq> []" and "trim (inputText st) \<noteq> []"
    and "createChunks (inputText st) CHUNK_SIZE = Some chunks"
    and "processChunks orc JSON_parse chunks 0
           (st\<lparr>error := None, isProcessing := True, results := [],
               progress := Some \<lparr>current = 0, total_chunks = length chunks\<rparr>\<rparr>) = (exn, st3)"
  shows "handleAnalyze orc JSON_parse st =
           Some ((case exn of Some err \<Rightarrow> st3\<lparr>error := Some run_error\<rparr> | None \<Rightarrow> st3)
                   \<lparr>isProcessing := False, progress := None\<rparr>)"
  using assms by (simp add: handleAnalyze_def Let_def run_error_def split: option.splits)

lemma processChunks_abort:
  assumes key: "apiKey st \<noteq> []"
    and k: "k < length chunks"
    and ok: "\<forall>j<k. orc (length (sent st) + j) (annotate (inputText st) j (chunks ! j)) = Response (r j)"
    and bad: "orc (length (sent st) + k) (annotate (inputText st) k (chunks ! k)) = Rejected msg"
  shows "processChunks orc JSON_parse chunks 0 st =
           (Some (OracleError msg),
            st\<lparr>sent := sent st @ map (\<lambda>j. annotate (inputText st) j (chunks ! j)) [0..<Suc k],
               results := results st @ concat (map (\<lambda>j. parseResponse JSON_parse (r j)) [0..<k]),
               progress := (if 0 = k then progress st
                            else Some \<lparr>current = k, total_chunks = length chunks\<rparr>)\<rparr>)"
proof -
  let ?a = "\<lambda>j. annotate (inputText st) j (chunks ! j)"
  let ?stk = "st\<lparr>sent := sent st @ map ?a [0..<k],
                 results := results st @ concat (map (\<lambda>j. parseResponse JSON_parse (r j)) [0..<k]),
                 progress := (if 0 = k then progress st
                              else Some \<lparr>current = k, total_chunks = length chunks\<rparr>)\<rparr>"
  from ok have ok': "\<forall>j. 0 \<le> j \<and> j < k \<longrightarrow>
      orc (length (sent st) + (j - 0)) (?a j) = Response (r j)" by simp
  from k have kl: "k \<le> length chunks" by simp
  have "processChunks orc JSON_parse chunks 0 st = processChunks orc JSON_parse chunks k ?stk"
    by (rule processChunks_prefix [OF key le0 kl ok'])
  moreover have "apiKey ?stk \<noteq> []" using key by simp
  moreover have "orc (length (sent ?stk)) (annotate (inputText ?stk) k (chunks ! k)) = Rejected msg"
    using bad by simp
  ultimately have "processChunks orc JSON_parse chunks 0 st =
      (Some (OracleError msg), ?stk\<lparr>sent := sent ?stk @ [annotate (inputText ?stk) k (chunks ! k)]\<rparr>)"
    using k by (simp add: processChunks_failure)
  then show ?thesis by simp
qed

lemma processChunks_complete:
  assumes key: "apiKey st \<noteq> []"
    and ok: "\<forall>j<length chunks.
               orc (length (sent st) + j) (annotate (inputText st) j (chunks ! j)) = Response (r j)"
  shows "processChunks orc JSON_parse chunks 0 st =
           (None,
            st\<lparr>sent := sent st @ map (\<lambda>j. annotate (inputText st) j (chunks ! j)) [0..<length chunks],
               results := results st @
                 concat (map (\<lambda>j. parseResponse JSON_parse (r j)) [0..<length chunks]),
               progress := (if 0 = length chunks then progress st
                            else Some \<lparr>current = length chunks, total_chunks = length chunks\<rparr>)\<rparr>)"
proof -
  from ok have ok': "\<forall>j. 0 \<le> j \<and> j < length chunks \<longrightarrow>
      orc (length (sent st) + (j - 0)) (annotate (inputText st) j (chunks ! j)) = Response (r j)"
    by simp
  show ?thesis
    by (simp only: processChunks_prefix [OF key le0 le_refl ok'] processChunks_done [OF le_refl])
qed

lemma handleAnalyze_failure:
  assumes key: "apiKey st \<noteq> []" and inp: "trim (inputText st) \<noteq> []"
    and ch: "createChunks (inputText st) CHUNK_SIZE = Some chunks"
    and k: "k < length chunks"
    and ok: "\<forall>j<k. orc (length (sent st) + j) (annotate (inputText st) j (chunks ! j)) = Response (r j)"
    and bad: "orc (length (sent st) + k) (annotate (inputText st) k (chunks ! k)) = Rejected msg"
  shows "handleAnalyze orc JSON_parse st =
           Some (st\<lparr>sent := sent st @ map (\<lambda>j. annotate (inputText st) j (chunks ! j)) [0..<Suc k],
                    results := concat (map (\<lambda>j. parseResponse JSON_parse (r j)) [0..<k]),
                    error := Some run_error, isProcessing := False, progress := None\<rparr>)"
proof -
  let ?st2 = "st\<lparr>error := None, isProcessing := True, results := [],
               progress := Some \<lparr>current = 0, total_chunks = length chunks\<rparr>\<rparr>"
  have "apiKey ?st2 \<noteq> []" using key by simp
  moreover have "\<forall>j<k. orc (length (sent ?st2) + j) (annotate (inputText ?st2) j (chunks ! j)) = Response (r j)"
    using ok by simp
  moreover have "orc (length (sent ?st2) + k) (annotate (inputText ?st2) k (chunks ! k)) = Rejected msg"
    using bad by simp
  ultimately have "processChunks orc JSON_parse chunks 0 ?st2 =
           (Some (OracleError msg),
            ?st2\<lparr>sent := sent ?st2 @ map (\<lambda>j. annotate (inputText ?st2) j (chunks ! j)) [0..<Suc k],
               results := results ?st2 @ concat (map (\<lambda>j. parseResponse JSON_parse (r j)) [0..<k]),
               progress := (if 0 = k then progress ?st2
                            else Some \<lparr>current = k, total_chunks = length chunks\<rparr>)\<rparr>)"
    using k by (intro processChunks_abort) 
  from handleAnalyze_run [OF key inp ch this] show ?thesis by simp
qed

lemma handleAnalyze_success:
  assumes key: "apiKey st \<noteq> []" and inp: "trim (inputText st) \<noteq> []"
    and ch: "createChunks (inputText st) CHUNK_SIZE = Some chunks"
    and ok: "\<forall>j<length chunks.
               orc (length (sent st) + j) (annotate (inputText st) j (chunks ! j)) = Response (r j)"
  shows "handleAnalyze orc JSON_parse st =
           Some (st\<lparr>sent := sent st @ map (\<lambda>j. annotate (inputText st) j (chunks ! j)) [0..<length chunks],
                    results := concat (map (\<lambda>j. parseResponse JSON_parse (r j)) [0..<length chunks]),
                    error := None, isProcessing := False, progress := None\<rparr>)"
proof -
  let ?st2 = "st\<lparr>error := None, isProcessing := True, results := [],
               progress := Some \<lparr>current = 0, total_chunks = length chunks\<rparr>\<rparr>"
  have "apiKey ?st2 \<noteq> []" using key by simp
  moreover have "\<forall>j<length chunks.
      orc (length (sent ?st2) + j) (annotate (inputText ?st2) j (chunks ! j)) = Response (r j)"
    using ok by simp
  ultimately have "processChunks orc JSON_parse chunks 0 ?st2 =
           (None,
            ?st2\<lparr>sent := sent ?st2 @ map (\<lambda>j. annotate (inputText ?st2) j (chunks ! j)) [0..<length chunks],
               results := results ?st2 @
                 concat (map (\<lambda>j. parseResponse JSON_parse (r j)) [0..<length chunks]),
               progress := (if 0 = length chunks then progress ?st2
                            else Some \<lparr>current = length chunks, total_chunks = length chunks\<rparr>)\<rparr>)"
    by (intro processChunks_complete)
  from handleAnalyze_run [OF key inp ch this] show ?thesis by simp
qed

lemma trim_nonempty: "\<exists>c\<in>set s. \<not> is_space c \<Longrightarrow> trim s \<noteq> []"
proof
  assume ex: "\<exists>c\<in>set s. \<not> is_space c" and "trim s = []"
  then have all: "\<forall>c\<in>set (dropWhile is_space s). is_space c"
    by (simp add: trim_def dropWhile_eq_Nil_conv)
  from ex have "dropWhile is_space s \<noteq> []" by (simp add: dropWhile_eq_Nil_conv)
  then have "\<not> is_space (hd (dropWhile is_space s))" and "hd (dropWhile is_space s) \<in> set (dropWhile is_space s)"
    by (simp_all add: hd_dropWhile)
  with all show False by blast
qed

lemma match_marker_None: "take 1 s \<noteq> ''['' \<Longrightarrow> match_marker s = None"
  by (cases s) (auto simp: match_marker_def)

lemma matchAll_no_bracket: "CHR ''['' \<notin> set s \<Longrightarrow> matchAll s = []"
proof (induction s)
  case Nil then show ?case by (subst matchAll.simps) simp
next
  case (Cons c s)
  then have "match_marker (c # s) = None" by (intro match_marker_None) auto
  with Cons show ?case by (subst matchAll.simps) simp
qed

lemma createChunks_two_chunk_text:
  "createChunks two_chunk_text CHUNK_SIZE =
     Some [\<lparr>chunk_text = replicate 30000 CHR ''a'', startIndex = 0\<rparr>,
           \<lparr>chunk_text = ''a'', startIndex = 30000\<rparr>]"
proof -
  let ?t = "replicate 30001 CHR ''a''"
  have nl: "lastIndexOf ?t newline k = None" for k
    by (rule lastIndexOf_NoneI) (simp add: newline_def)
  have e0: "chunk_end ?t 30000 0 = 30000" by (simp add: chunk_end_def nl)
  have e1: "chunk_end ?t 30000 30000 = 30001" by (simp add: chunk_end_def)
  have s0: "slice ?t 0 30000 = replicate 30000 CHR ''a''" by (simp add: slice_def)
  have s1: "slice ?t 30000 30001 = ''a''" by (simp add: slice_def)
  have "createChunks_loop ?t 30000 0 [] =
          createChunks_loop ?t 30000 30000 [\<lparr>chunk_text = replicate 30000 CHR ''a'', startIndex = 0\<rparr>]"
    by (subst createChunks_loop.simps) (simp add: e0 s0)
  also have "\<dots> = createChunks_loop ?t 30000 30001
       [\<lparr>chunk_text = replicate 30000 CHR ''a'', startIndex = 0\<rparr>,
        \<lparr>chunk_text = ''a'', startIndex = 30000\<rparr>]"
    by (subst createChunks_loop.simps) (simp add: e1 s1)
  also have "\<dots> = Some [\<lparr>chunk_text = replicate 30000 CHR ''a'', startIndex = 0\<rparr>,
        \<lparr>chunk_text = ''a'', startIndex = 30000\<rparr>]"
    by (subst createChunks_loop.simps) simp
  finally show ?thesis by (simp add: createChunks_def two_chunk_text_def CHUNK_SIZE_def)
qed

lemma cleanJson_sample: "cleanJson sample_json = sample_json"
  by (simp add: cleanJson_def sample_json_def quoted_def dquote_def trim_def is_space_def startsWith_def)

lemma cleanJson_bogus: "cleanJson bogus_json = bogus_json"
  by (simp add: cleanJson_def bogus_json_def quoted_def dquote_def trim_def is_space_def startsWith_def)

lemma annotate_two_chunk_text:
  "annotate two_chunk_text 0 \<lparr>chunk_text = replicate 30000 CHR ''a'', startIndex = 0\<rparr> = replicate 30000 CHR ''a''"
  "0 < i \<Longrightarrow> annotate two_chunk_text i \<lparr>chunk_text = ''a'', startIndex = 30000\<rparr> = ''a''"
  by (simp_all add: annotate_def two_chunk_text_def slice_def matchAll_no_bracket)

lemma createChunks_short:
  "0 < length t \<Longrightarrow> length t \<le> sz \<Longrightarrow>
     createChunks t sz = Some [\<lparr>chunk_text = t, startIndex = 0\<rparr>]"
proof -
  assume pos: "0 < length t" and le: "length t \<le> sz"
  then have e: "chunk_end t sz 0 = length t" by (simp add: chunk_end_def min_def)
  have "createChunks_loop t sz 0 [] =
          createChunks_loop t sz (length t) [\<lparr>chunk_text = t, startIndex = 0\<rparr>]"
    using pos by (subst createChunks_loop.simps) (simp add: e slice_def)
  also have "\<dots> = Some [\<lparr>chunk_text = t, startIndex = 0\<rparr>]"
    by (subst createChunks_loop.simps) simp
  finally show ?thesis by (simp add: createChunks_def)
qed

text \<open>
  Claim C3, as amended. Let the service answer the requests for chunks \<open>0, \<dots>, k - 1\<close> and
  reject the request for chunk \<open>k\<close>, in a run over \<open>n\<close> chunks. Then the loop ends with the
  exception at chunk \<open>k\<close>: the requests sent are those for chunks \<open>0, \<dots>, k\<close> and no other;
  at that point the result set holds exactly the items of chunks \<open>0, \<dots>, k - 1\<close>, in
  order, and the progress last published is \<open>current = k\<close> (the number of chunks
  completed), \<open>total = n\<close>. When \<open>handleAnalyze\<close> has returned, the result set is still
  that one (nothing is rolled back), the error message of the run is set, and the
  progress state has been reset to null by the \<open>finally\<close> block. A run in which every
  request is answered ends with no error set, also when no item was found.
\<close>

theorem handleAnalyze_abort:
  assumes key: "apiKey st \<noteq> []" and inp: "trim (inputText st) \<noteq> []"
    and ch: "createChunks (inputText st) CHUNK_SIZE = Some chunks"
    and k: "k < length chunks"
    and ok: "\<forall>j<k. orc (length (sent st) + j) (annotate (inputText st) j (chunks ! j)) = Response (r j)"
    and bad: "orc (length (sent st) + k) (annotate (inputText st) k (chunks ! k)) = Rejected msg"
  shows "(\<exists>st3 st'.
           processChunks orc JSON_parse chunks 0
             (st\<lparr>error := None, isProcessing := True, results := [],
                 progress := Some \<lparr>current = 0, total_chunks = length chunks\<rparr>\<rparr>) =
             (Some (OracleError msg), st3) \<and>
           results st3 = concat (map (\<lambda>j. parseResponse JSON_parse (r j)) [0..<k]) \<and>
           progress st3 = Some \<lparr>current = k, total_chunks = length chunks\<rparr> \<and>
           sent st3 = sent st @ map (\<lambda>j. annotate (inputText st) j (chunks ! j)) [0..<Suc k] \<and>
           handleAnalyze orc JSON_parse st = Some st' \<and>
           results st' = results st3 \<and> sent st' = sent st3 \<and>
           error st' = Some run_error \<and> progress st' = None \<and> isProcessing st' = False) \<and>
         (\<forall>orc0 r0.
            (\<forall>j<length chunks.
               orc0 (length (sent st) + j) (annotate (inputText st) j (chunks ! j)) = Response (r0 j)) \<longrightarrow>
            (\<exists>st0. handleAnalyze orc0 JSON_parse st = Some st0 \<and> error st0 = None \<and>
               results st0 = concat (map (\<lambda>j. parseResponse JSON_parse (r0 j)) [0..<length chunks])))"
proof (intro conjI allI impI)
  let ?st2 = "st\<lparr>error := None, isProcessing := True, results := [],
               progress := Some \<lparr>current = 0, total_chunks = length chunks\<rparr>\<rparr>"
  have "apiKey ?st2 \<noteq> []" using key by simp
  moreover have "\<forall>j<k. orc (length (sent ?st2) + j) (annotate (inputText ?st2) j (chunks ! j)) = Response (r j)"
    using ok by simp
  moreover have "orc (length (sent ?st2) + k) (annotate (inputText ?st2) k (chunks ! k)) = Rejected msg"
    using bad by simp
  ultimately have pc: "processChunks orc JSON_parse chunks 0 ?st2 =
           (Some (OracleError msg),
            ?st2\<lparr>sent := sent ?st2 @ map (\<lambda>j. annotate (inputText ?st2) j (chunks ! j)) [0..<Suc k],
               results := results ?st2 @ concat (map (\<lambda>j. parseResponse JSON_parse (r j)) [0..<k]),
               progress := (if 0 = k then progress ?st2
                            else Some \<lparr>current = k, total_chunks = length chunks\<rparr>)\<rparr>)"
    (is "_ = (_, ?st3)")
    using k by (intro processChunks_abort)
  have ha: "handleAnalyze orc JSON_parse st =
           Some (st\<lparr>sent := sent st @ map (\<lambda>j. annotate (inputText st) j (chunks ! j)) [0..<Suc k],
                    results := concat (map (\<lambda>j. parseResponse JSON_parse (r j)) [0..<k]),
                    error := Some run_error, isProcessing := False, progress := None\<rparr>)"
    (is "_ = Some ?st'")
    by (rule handleAnalyze_failure [OF key inp ch k ok bad])
  have "results ?st3 = concat (map (\<lambda>j. parseResponse JSON_parse (r j)) [0..<k])"
    and "progress ?st3 = Some \<lparr>current = k, total_chunks = length chunks\<rparr>"
    and "sent ?st3 = sent st @ map (\<lambda>j. annotate (inputText st) j (chunks ! j)) [0..<Suc k]"
    and "results ?st' = results ?st3" and "sent ?st' = sent ?st3"
    and "error ?st' = Some run_error" and "progress ?st' = None" and "isProcessing ?st' = False"
    by simp_all
  with pc ha
  show "\<exists>st3 st'.
           processChunks orc JSON_parse chunks 0 ?st2 = (Some (OracleError msg), st3) \<and>
           results st3 = concat (map (\<lambda>j. parseResponse JSON_parse (r j)) [0..<k]) \<and>
           progress st3 = Some \<lparr>current = k, total_chunks = length chunks\<rparr> \<and>
           sent st3 = sent st @ map (\<lambda>j. annotate (inputText st) j (chunks ! j)) [0..<Suc k] \<and>
           handleAnalyze orc JSON_parse st = Some st' \<and>
           results st' = results st3 \<and> sent st' = sent st3 \<and>
           error st' = Some run_error \<and> progress st' = None \<and> isProcessing st' = False"
    by blast
next
  fix orc0 r0
  assume "\<forall>j<length chunks.
      orc0 (length (sent st) + j) (annotate (inputText st) j (chunks ! j)) = Response (r0 j)"
  from handleAnalyze_success [OF key inp ch this, of JSON_parse]
  show "\<exists>st0. handleAnalyze orc0 JSON_parse st = Some st0 \<and> error st0 = None \<and>
               results st0 = concat (map (\<lambda>j. parseResponse JSON_parse (r0 j)) [0..<length chunks])"
    by simp
qed

lemma parseResponse_sample: "parseResponse parse_fixture (Some sample_json) = [sample_item]"
  by (simp add: parseResponse_def cleanJson_sample parse_fixture_def) (simp add: sample_json_def)

lemma parseResponse_bogus: "parseResponse parse_fixture (Some bogus_json) = [bogus_item]"
  by (simp add: parseResponse_def cleanJson_bogus parse_fixture_def)
     (simp add: sample_json_def bogus_json_def quoted_def)

theorem handleAnalyze_abort_witness:
  "apiKey (idle two_chunk_text) \<noteq> [] \<and>
   trim (inputText (idle two_chunk_text)) \<noteq> [] \<and>
   createChunks (inputText (idle two_chunk_text)) CHUNK_SIZE =
     Some [\<lparr>chunk_text = replicate 30000 CHR ''a'', startIndex = 0\<rparr>,
           \<lparr>chunk_text = ''a'', startIndex = 30000\<rparr>] \<and>
   fails_on_second 0 (replicate 30000 CHR ''a'') = Response (Some sample_json) \<and>
   fails_on_second 1 ''a'' = Rejected ''network'' \<and>
   (\<exists>st3 st'.
      processChunks fails_on_second parse_fixture
        [\<lparr>chunk_text = replicate 30000 CHR ''a'', startIndex = 0\<rparr>,
         \<lparr>chunk_text = ''a'', startIndex = 30000\<rparr>] 0
        ((idle two_chunk_text)\<lparr>error := None, isProcessing := True, results := [],
            progress := Some \<lparr>current = 0, total_chunks = 2\<rparr>\<rparr>) =
        (Some (OracleError ''network''), st3) \<and>
      results st3 = [sample_item] \<and>
      progress st3 = Some \<lparr>current = 1, total_chunks = 2\<rparr> \<and>
      sent st3 = [replicate 30000 CHR ''a'', ''a''] \<and>
      handleAnalyze fails_on_second parse_fixture (idle two_chunk_text) = Some st' \<and>
      results st' = [sample_item] \<and> sent st' = [replicate 30000 CHR ''a'', ''a''] \<and>
      error st' = Some run_error \<and> progress st' = None \<and> isProcessing st' = False)"
proof -
  let ?c1 = "\<lparr>chunk_text = replicate 30000 CHR ''a'', startIndex = 0\<rparr>"
  let ?c2 = "\<lparr>chunk_text = ''a'', startIndex = 30000\<rparr>"
  let ?st = "idle two_chunk_text"
  have key: "apiKey ?st \<noteq> []" by (simp add: idle_def)
  have inp: "trim (inputText ?st) \<noteq> []"
    by (rule trim_nonempty) (simp add: idle_def two_chunk_text_def is_space_def)
  have ch: "createChunks (inputText ?st) CHUNK_SIZE = Some [?c1, ?c2]"
    by (simp add: idle_def createChunks_two_chunk_text)
  have k: "1 < length [?c1, ?c2]" by simp
  have a0: "fails_on_second 0 (replicate 30000 CHR ''a'') = Response (Some sample_json)"
    by (simp add: fails_on_second_def)
  have a1: "fails_on_second 1 ''a'' = Rejected ''network''"
    by (simp add: fails_on_second_def)
  have ok: "\<forall>j<1. fails_on_second (length (sent ?st) + j)
      (annotate (inputText ?st) j ([?c1, ?c2] ! j)) = Response ((\<lambda>j. Some sample_json) j)"
    by (simp add: idle_def annotate_two_chunk_text a0)
  have bad: "fails_on_second (length (sent ?st) + 1)
      (annotate (inputText ?st) 1 ([?c1, ?c2] ! 1)) = Rejected ''network''"
    by (simp add: idle_def annotate_two_chunk_text fails_on_second_def)
  have "\<exists>st3 st'.
      processChunks fails_on_second parse_fixture [?c1, ?c2] 0
        (?st\<lparr>error := None, isProcessing := True, results := [],
            progress := Some \<lparr>current = 0, total_chunks = length [?c1, ?c2]\<rparr>\<rparr>) =
        (Some (OracleError ''network''), st3) \<and>
      results st3 = concat (map (\<lambda>j. parseResponse parse_fixture ((\<lambda>j. Some sample_json) j)) [0..<1]) \<and>
      progress st3 = Some \<lparr>current = 1, total_chunks = length [?c1, ?c2]\<rparr> \<and>
      sent st3 = sent ?st @ map (\<lambda>j. annotate (inputText ?st) j ([?c1, ?c2] ! j)) [0..<Suc 1] \<and>
      handleAnalyze fails_on_second parse_fixture ?st = Some st' \<and>
      results st' = results st3 \<and> sent st' = sent st3 \<and>
      error st' = Some run_error \<and> progress st' = None \<and> isProcessing st' = False"
    using handleAnalyze_abort [OF key inp ch k ok bad, of parse_fixture] by (rule conjunct1)
  then obtain st3 st' where
    "processChunks fails_on_second parse_fixture [?c1, ?c2] 0
        (?st\<lparr>error := None, isProcessing := True, results := [],
            progress := Some \<lparr>current = 0, total_chunks = length [?c1, ?c2]\<rparr>\<rparr>) =
        (Some (OracleError ''network''), st3)"
    "results st3 = concat (map (\<lambda>j. parseResponse parse_fixture ((\<lambda>j. Some sample_json) j)) [0..<1])"
    "progress st3 = Some \<lparr>current = 1, total_chunks = length [?c1, ?c2]\<rparr>"
    "sent st3 = sent ?st @ map (\<lambda>j. annotate (inputText ?st) j ([?c1, ?c2] ! j)) [0..<Suc 1]"
    "handleAnalyze fails_on_second parse_fixture ?st = Some st'"
    "results st' = results st3" "sent st' = sent st3"
    "error st' = Some run_error" "progress st' = None" "isProcessing st' = False"
    by blast
  moreover have "[0..<Suc 1] = [0, 1]" by (simp add: upt_rec)
  moreover have "sent ?st = []" "inputText ?st = two_chunk_text" by (simp_all add: idle_def)
  ultimately have "processChunks fails_on_second parse_fixture [?c1, ?c2] 0
        (?st\<lparr>error := None, isProcessing := True, results := [],
            progress := Some \<lparr>current = 0, total_chunks = 2\<rparr>\<rparr>) =
        (Some (OracleError ''network''), st3) \<and>
      results st3 = [sample_item] \<and>
      progress st3 = Some \<lparr>current = 1, total_chunks = 2\<rparr> \<and>
      sent st3 = [replicate 30000 CHR ''a'', ''a''] \<and>
      handleAnalyze fails_on_second parse_fixture ?st = Some st' \<and>
      results st' = [sample_item] \<and> sent st' = [replicate 30000 CHR ''a'', ''a''] \<and>
      error st' = Some run_error \<and> progress st' = None \<and> isProcessing st' = False"
    by (simp add: parseResponse_sample annotate_two_chunk_text numeral_2_eq_2)
  then have "\<exists>st3 st'. processChunks fails_on_second parse_fixture [?c1, ?c2] 0
        (?st\<lparr>error := None, isProcessing := True, results := [],
            progress := Some \<lparr>current = 0, total_chunks = 2\<rparr>\<rparr>) =
        (Some (OracleError ''network''), st3) \<and>
      results st3 = [sample_item] \<and>
      progress st3 = Some \<lparr>current = 1, total_chunks = 2\<rparr> \<and>
      sent st3 = [replicate 30000 CHR ''a'', ''a''] \<and>
      handleAnalyze fails_on_second parse_fixture ?st = Some st' \<and>
      results st' = [sample_item] \<and> sent st' = [replicate 30000 CHR ''a'', ''a''] \<and>
      error st' = Some run_error \<and> progress st' = None \<and> isProcessing st' = False"
    by blast
  with key inp ch a0 a1 show ?thesis by blast
qed

text \<open>
  Claim C3 as stated fails on the progress state: with one item from the first chunk and
  a rejected request for the second, the run ends with that one item and the error
  message, but the progress state is null, not \<open>current = 1, total = 2\<close>.
\<close>

theorem handleAnalyze_abort_counterexample:
  "map_option results (handleAnalyze fails_on_second parse_fixture (idle two_chunk_text)) =
     Some [sample_item] \<and>
   map_option error (handleAnalyze fails_on_second parse_fixture (idle two_chunk_text)) =
     Some (Some run_error) \<and>
   map_option progress (handleAnalyze fails_on_second parse_fixture (idle two_chunk_text)) =
     Some None \<and>
   map_option progress (handleAnalyze fails_on_second parse_fixture (idle two_chunk_text)) \<noteq>
     Some (Some \<lparr>current = 1, total_chunks = 2\<rparr>)"
proof -
  let ?c1 = "\<lparr>chunk_text = replicate 30000 CHR ''a'', startIndex = 0\<rparr>"
  let ?c2 = "\<lparr>chunk_text = ''a'', startIndex = 30000\<rparr>"
  let ?st = "idle two_chunk_text"
  have key: "apiKey ?st \<noteq> []" by (simp add: idle_def)
  have inp: "trim (inputText ?st) \<noteq> []"
    by (rule trim_nonempty) (simp add: idle_def two_chunk_text_def is_space_def)
  have ch: "createChunks (inputText ?st) CHUNK_SIZE = Some [?c1, ?c2]"
    by (simp add: idle_def createChunks_two_chunk_text)
  have k: "1 < length [?c1, ?c2]" by simp
  have ok: "\<forall>j<1. fails_on_second (length (sent ?st) + j)
      (annotate (inputText ?st) j ([?c1, ?c2] ! j)) = Response ((\<lambda>j. Some sample_json) j)"
    by (simp add: idle_def annotate_two_chunk_text fails_on_second_def)
  have bad: "fails_on_second (length (sent ?st) + 1)
      (annotate (inputText ?st) 1 ([?c1, ?c2] ! 1)) = Rejected ''network''"
    by (simp add: idle_def annotate_two_chunk_text fails_on_second_def)
  have "[0..<1] = [0::nat]" by (simp add: upt_rec)
  with handleAnalyze_failure [OF key inp ch k ok bad, of parse_fixture]
  show ?thesis by (simp add: parseResponse_sample numeral_2_eq_2)
qed

lemma parseResponse_Some:
  "jsonText \<noteq> [] \<Longrightarrow> JSON_parse (cleanJson jsonText) = Some items \<Longrightarrow>
     parseResponse JSON_parse (Some jsonText) = items"
  by (simp add: parseResponse_def)

lemma parseResponse_unparsable:
  "JSON_parse (cleanJson jsonText) = None \<Longrightarrow> parseResponse JSON_parse (Some jsonText) = []"
  by (simp add: parseResponse_def)

text \<open>
  Claim C2, as amended. \<open>verifyManuscript\<close> does not check the items of a response. When
  the response text is not empty and parses to an array of objects whose fields
  \<open>location\<close>, \<open>quote_text\<close>, \<open>claimed_source\<close>, \<open>status\<close> and \<open>notes\<close> are each a string or
  absent, the call returns that array as it is, whichever of these fields are absent and
  whatever string the status is, and the loop of \<open>handleAnalyze\<close> appends the whole array
  to the result set and goes on. (The enumeration and the required fields are part of
  the schema sent with the request; the reply is not checked against them. A response
  that parses to something other than such an array is outside this statement.)
\<close>

theorem verifyManuscript_unvalidated:
  assumes key: "key \<noteq> []"
    and resp: "orc (length snt) t = Response (Some jsonText)"
    and ne: "jsonText \<noteq> []"
    and parse: "JSON_parse (cleanJson jsonText) = Some items"
  shows "verifyManuscript orc JSON_parse t key snt = (Inr items, snt @ [t]) \<and>
         (\<forall>chunks i st.
            i < length chunks \<and> apiKey st = key \<and> sent st = snt \<and>
            annotate (inputText st) i (chunks ! i) = t \<longrightarrow>
            processChunks orc JSON_parse chunks i st =
              processChunks orc JSON_parse chunks (i + 1)
                (st\<lparr>sent := snt @ [t], results := results st @ items,
                    progress := Some \<lparr>current = i + 1, total_chunks = length chunks\<rparr>\<rparr>))"
proof (intro conjI allI impI)
  show "verifyManuscript orc JSON_parse t key snt = (Inr items, snt @ [t])"
    using key resp by (simp add: verifyManuscript_Response parseResponse_Some [where JSON_parse = JSON_parse, OF ne parse])
next
  fix chunks :: "chunk list" and i :: nat and st :: app_state
  assume h: "i < length chunks \<and> apiKey st = key \<and> sent st = snt \<and>
            annotate (inputText st) i (chunks ! i) = t"
  then have "apiKey st \<noteq> []"
    and "orc (length (sent st)) (annotate (inputText st) i (chunks ! i)) = Response (Some jsonText)"
    using key resp by simp_all
  with h show "processChunks orc JSON_parse chunks i st =
              processChunks orc JSON_parse chunks (i + 1)
                (st\<lparr>sent := snt @ [t], results := results st @ items,
                    progress := Some \<lparr>current = i + 1, total_chunks = length chunks\<rparr>\<rparr>)"
    by (simp add: processChunks_success parseResponse_Some [where JSON_parse = JSON_parse, OF ne parse])
qed

theorem verifyManuscript_unvalidated_witness:
  "''key'' \<noteq> [] \<and>
   returns_bogus (length ([] :: string list)) ''x'' = Response (Some bogus_json) \<and>
   bogus_json \<noteq> [] \<and>
   parse_fixture (cleanJson bogus_json) = Some [bogus_item] \<and>
   verifyManuscript returns_bogus parse_fixture ''x'' ''key'' [] = (Inr [bogus_item], [''x''])"
proof -
  have key: "''key'' \<noteq> []" by simp
  have resp: "returns_bogus (length ([] :: string list)) ''x'' = Response (Some bogus_json)"
    by (simp add: returns_bogus_def)
  have ne: "bogus_json \<noteq> []" by (simp add: bogus_json_def)
  have parse: "parse_fixture (cleanJson bogus_json) = Some [bogus_item]"
    by (simp add: cleanJson_bogus parse_fixture_def) (simp add: sample_json_def bogus_json_def quoted_def)
  from verifyManuscript_unvalidated
      [where orc = returns_bogus and JSON_parse = parse_fixture and t = "''x''" and snt = "[]",
       OF key resp ne parse]
  have "verifyManuscript returns_bogus parse_fixture ''x'' ''key'' [] = (Inr [bogus_item], [] @ [''x''])"
    by (rule conjunct1)
  with key resp ne parse show ?thesis by simp
qed

text \<open>
  Claim C2 as stated fails: a response that parses to one item with the status \<open>BOGUS\<close>
  and without location and quote is returned by \<open>verifyManuscript\<close> as it is, and the run
  ends with that item in the result set.
\<close>

theorem verifyManuscript_validation_counterexample:
  "verifyManuscript returns_bogus parse_fixture ''x'' ''key'' [] = (Inr [bogus_item], [''x'']) \<and>
   status bogus_item = Some ''BOGUS'' \<and> ''BOGUS'' \<notin> CheckStatus \<and>
   location bogus_item = None \<and> quote_text bogus_item = None \<and>
   map_option results (handleAnalyze returns_bogus parse_fixture (idle ''x'')) = Some [bogus_item] \<and>
   map_option error (handleAnalyze returns_bogus parse_fixture (idle ''x'')) = Some None"
proof -
  let ?st = "idle ''x''"
  let ?c = "\<lparr>chunk_text = ''x'', startIndex = 0\<rparr>"
  have vm: "verifyManuscript returns_bogus parse_fixture ''x'' ''key'' [] = (Inr [bogus_item], [''x''])"
    by (simp add: verifyManuscript_def returns_bogus_def parseResponse_bogus)
  have key: "apiKey ?st \<noteq> []" by (simp add: idle_def)
  have inp: "trim (inputText ?st) \<noteq> []"
    by (rule trim_nonempty) (simp add: idle_def is_space_def)
  have ch: "createChunks (inputText ?st) CHUNK_SIZE = Some [?c]"
    by (simp add: idle_def createChunks_short CHUNK_SIZE_def)
  have ok: "\<forall>j<length [?c]. returns_bogus (length (sent ?st) + j)
      (annotate (inputText ?st) j ([?c] ! j)) = Response ((\<lambda>j. Some bogus_json) j)"
    by (simp add: returns_bogus_def)
  have "[0..<1] = [0::nat]" by (simp add: upt_rec)
  with handleAnalyze_success [OF key inp ch ok, of parse_fixture] vm
  show ?thesis
    by (simp add: parseResponse_bogus bogus_item_def CheckStatus_def ACCURATE_def PARAPHRASED_def
          MISATTRIBUTED_def UNVERIFIABLE_def)
qed

lemma trim_fixed:
  assumes "trim s = s" and "s \<noteq> []"
  shows "\<not> is_space (hd s) \<and> \<not> is_space (last s)"
proof -
  have len: "length (trim s) \<le> length (dropWhile is_space s)"
    using length_dropWhile_le [of is_space "rev (dropWhile is_space s)"] by (simp add: trim_def)
  have d: "dropWhile is_space s = s"
  proof (rule ccontr)
    assume "dropWhile is_space s \<noteq> s"
    then have "is_space (hd s)" using assms(2) by (cases s) (auto split: if_splits)
    then have "length (dropWhile is_space s) < length s"
      using assms(2) by (cases s) (auto simp: less_Suc_eq_le length_dropWhile_le)
    with len assms(1) show False by simp
  qed
  with assms(1) have "dropWhile is_space (rev s) = rev s"
    by (simp add: trim_def) (metis rev_rev_ident)
  with assms(2) have "\<not> is_space (hd (rev s))"
    by (metis hd_dropWhile rev_is_Nil_conv)
  moreover from d assms(2) have "\<not> is_space (hd s)" by (metis hd_dropWhile)
  ultimately show ?thesis using assms(2) by (simp add: hd_rev)
qed

lemma trim_unchanged:
  "s \<noteq> [] \<Longrightarrow> \<not> is_space (hd s) \<Longrightarrow> \<not> is_space (last s) \<Longrightarrow> trim s = s"
proof -
  assume ne: "s \<noteq> []" and h: "\<not> is_space (hd s)" and l: "\<not> is_space (last s)"
  from ne h have "dropWhile is_space s = s" by (cases s) auto
  moreover from ne l have "dropWhile is_space (rev s) = rev s" by (cases "rev s") (auto simp: hd_rev [symmetric])
  ultimately show ?thesis by (simp add: trim_def)
qed

lemma backtick_no_space: "\<not> is_space CHR ''`''"
  by (simp add: is_space_def)

lemma strip_fence_body:
  assumes body: "trim body = body"
    and ws1: "\<forall>c\<in>set ws1. is_space c" and ws2: "\<forall>c\<in>set ws2. is_space c"
  shows "strip_close (dropWhile is_space (ws1 @ body @ ws2 @ ''```'')) = body"
proof (cases "body = []")
  case True
  have "dropWhile is_space (ws1 @ ws2 @ ''```'') = ''```''"
    using ws1 ws2 by (simp add: dropWhile_append2 backtick_no_space)
  with True show ?thesis by (simp add: strip_close_def endsWith_def)
next
  case False
  from trim_fixed [OF body False] have h: "\<not> is_space (hd body)" and l: "\<not> is_space (last body)"
    by simp_all
  from False h have "dropWhile is_space (body @ ws2 @ ''```'') = body @ ws2 @ ''```''"
    by (cases body) auto
  with ws1 have d: "dropWhile is_space (ws1 @ body @ ws2 @ ''```'') = body @ ws2 @ ''```''"
    by (simp add: dropWhile_append2)
  have e: "endsWith (body @ ws2 @ ''```'') ''```''" by (simp add: endsWith_def)
  have "rev (body @ ws2 @ ''```'') = ''```'' @ rev ws2 @ rev body" by simp
  then have "drop 3 (rev (body @ ws2 @ ''```'')) = rev ws2 @ rev body" by simp
  moreover have "dropWhile is_space (rev ws2 @ rev body) = dropWhile is_space (rev body)"
  proof -
    from ws2 have "\<And>c. c \<in> set (rev ws2) \<Longrightarrow> is_space c" by simp
    then show ?thesis by (rule dropWhile_append2)
  qed
  moreover from False l have "dropWhile is_space (rev body) = rev body"
    by (cases "rev body") (auto simp: hd_rev [symmetric])
  ultimately have "rev (dropWhile is_space (drop 3 (rev (body @ ws2 @ ''```'')))) = body"
    by simp
  with d e show ?thesis by (simp only: strip_close_def if_True)
qed

lemma cleanJson_fenced:
  assumes body: "trim body = body"
    and ws0: "\<forall>c\<in>set ws0. is_space c" and ws1: "\<forall>c\<in>set ws1. is_space c"
    and ws2: "\<forall>c\<in>set ws2. is_space c" and ws3: "\<forall>c\<in>set ws3. is_space c"
  shows "cleanJson (ws0 @ ''```json'' @ ws1 @ body @ ws2 @ ''```'' @ ws3) = body"
    and "\<not> startsWith (ws1 @ body @ ws2 @ ''```'') ''json'' \<Longrightarrow>
           cleanJson (ws0 @ ''```'' @ ws1 @ body @ ws2 @ ''```'' @ ws3) = body"
proof -
  have tr: "trim (ws0 @ ''```'' @ x @ ''```'' @ ws3) = ''```'' @ x @ ''```''" for x
  proof -
    have "dropWhile is_space (ws0 @ ''```'' @ x @ ''```'' @ ws3) = ''```'' @ x @ ''```'' @ ws3"
      using ws0 by (simp add: dropWhile_append2 backtick_no_space)
    moreover have "dropWhile is_space (rev ws3 @ ''```'' @ rev x @ ''```'') = ''```'' @ rev x @ ''```''"
    proof -
      from ws3 have "\<And>c. c \<in> set (rev ws3) \<Longrightarrow> is_space c" by simp
      then have "dropWhile is_space (rev ws3 @ ''```'' @ rev x @ ''```'') =
          dropWhile is_space (''```'' @ rev x @ ''```'')" by (rule dropWhile_append2)
      then show ?thesis by (simp add: backtick_no_space)
    qed
    ultimately show ?thesis by (simp add: trim_def)
  qed
  from tr [of "''json'' @ ws1 @ body @ ws2"]
  have "trim (ws0 @ ''```json'' @ ws1 @ body @ ws2 @ ''```'' @ ws3) =
          ''```json'' @ ws1 @ body @ ws2 @ ''```''" by simp
  moreover have "startsWith (''```json'' @ ws1 @ body @ ws2 @ ''```'') ''```json''"
    by (simp add: startsWith_def)
  moreover have "strip_open ''```json'' (''```json'' @ ws1 @ body @ ws2 @ ''```'') =
      dropWhile is_space (ws1 @ body @ ws2 @ ''```'')"
    by (simp add: strip_open_def startsWith_def)
  ultimately show "cleanJson (ws0 @ ''```json'' @ ws1 @ body @ ws2 @ ''```'' @ ws3) = body"
    using strip_fence_body [OF body ws1 ws2] by (simp add: cleanJson_def)
next
  assume nj: "\<not> startsWith (ws1 @ body @ ws2 @ ''```'') ''json''"
  have tr: "trim (ws0 @ ''```'' @ x @ ''```'' @ ws3) = ''```'' @ x @ ''```''" for x
  proof -
    have "dropWhile is_space (ws0 @ ''```'' @ x @ ''```'' @ ws3) = ''```'' @ x @ ''```'' @ ws3"
      using ws0 by (simp add: dropWhile_append2 backtick_no_space)
    moreover have "dropWhile is_space (rev ws3 @ ''```'' @ rev x @ ''```'') = ''```'' @ rev x @ ''```''"
    proof -
      from ws3 have "\<And>c. c \<in> set (rev ws3) \<Longrightarrow> is_space c" by simp
      then have "dropWhile is_space (rev ws3 @ ''```'' @ rev x @ ''```'') =
          dropWhile is_space (''```'' @ rev x @ ''```'')" by (rule dropWhile_append2)
      then show ?thesis by (simp add: backtick_no_space)
    qed
    ultimately show ?thesis by (simp add: trim_def)
  qed
  from tr [of "ws1 @ body @ ws2"]
  have "trim (ws0 @ ''```'' @ ws1 @ body @ ws2 @ ''```'' @ ws3) =
          ''```'' @ ws1 @ body @ ws2 @ ''```''" by simp
  moreover from nj have "\<not> startsWith (''```'' @ ws1 @ body @ ws2 @ ''```'') ''```json''"
    by (simp add: startsWith_def)
  moreover have "startsWith (''```'' @ ws1 @ body @ ws2 @ ''```'') ''```''"
    by (simp add: startsWith_def)
  moreover have "strip_open ''```'' (''```'' @ ws1 @ body @ ws2 @ ''```'') =
      dropWhile is_space (ws1 @ body @ ws2 @ ''```'')"
    by (simp add: strip_open_def startsWith_def)
  ultimately show "cleanJson (ws0 @ ''```'' @ ws1 @ body @ ws2 @ ''```'' @ ws3) = body"
    using strip_fence_body [OF body ws1 ws2] by (simp add: cleanJson_def)
qed

text \<open>
  Claim C4. When the text of a response, cleaned by \<open>cleanJson\<close>, does not parse,
  \<open>verifyManuscript\<close> returns the empty sequence and raises nothing, and the loop of
  \<open>handleAnalyze\<close> goes on to the next chunk with the result set unchanged and the progress
  advanced. When the external call is rejected (network, authentication),
  \<open>verifyManuscript\<close> raises the error, and the loop ends with it at that chunk. The
  cleaning removes a wrapping fence: for a body without white space at its ends, between
  an opening fence (three back ticks, with or without \<open>json\<close>), white space, and the
  closing three back ticks, \<open>cleanJson\<close> gives the body.
\<close>

theorem malformed_output_tolerated:
  assumes key: "key \<noteq> []"
  shows "(orc (length snt) t = Response (Some jsonText) \<and> JSON_parse (cleanJson jsonText) = None \<longrightarrow>
            verifyManuscript orc JSON_parse t key snt = (Inr [], snt @ [t]) \<and>
            (\<forall>chunks i st.
               i < length chunks \<and> apiKey st = key \<and> sent st = snt \<and>
               annotate (inputText st) i (chunks ! i) = t \<longrightarrow>
               processChunks orc JSON_parse chunks i st =
                 processChunks orc JSON_parse chunks (i + 1)
                   (st\<lparr>sent := snt @ [t],
                       progress := Some \<lparr>current = i + 1, total_chunks = length chunks\<rparr>\<rparr>))) \<and>
         (orc (length snt) t = Rejected msg \<longrightarrow>
            verifyManuscript orc JSON_parse t key snt = (Inl (OracleError msg), snt @ [t]) \<and>
            (\<forall>chunks i st.
               i < length chunks \<and> apiKey st = key \<and> sent st = snt \<and>
               annotate (inputText st) i (chunks ! i) = t \<longrightarrow>
               processChunks orc JSON_parse chunks i st =
                 (Some (OracleError msg), st\<lparr>sent := snt @ [t]\<rparr>))) \<and>
         (trim body = body \<and> (\<forall>c\<in>set lead. is_space c) \<and> (\<forall>c\<in>set trail. is_space c) \<longrightarrow>
            cleanJson (''```json'' @ lead @ body @ trail @ ''```'') = body \<and>
            (\<not> startsWith (lead @ body @ trail @ ''```'') ''json'' \<longrightarrow>
               cleanJson (''```'' @ lead @ body @ trail @ ''```'') = body))"
proof (intro conjI impI allI)
  assume h: "orc (length snt) t = Response (Some jsonText) \<and> JSON_parse (cleanJson jsonText) = None"
  then show "verifyManuscript orc JSON_parse t key snt = (Inr [], snt @ [t])"
    using key by (simp add: verifyManuscript_Response parseResponse_unparsable)
  fix chunks :: "chunk list" and i :: nat and st :: app_state
  assume c: "i < length chunks \<and> apiKey st = key \<and> sent st = snt \<and>
               annotate (inputText st) i (chunks ! i) = t"
  with h key have "apiKey st \<noteq> []"
    and "orc (length (sent st)) (annotate (inputText st) i (chunks ! i)) = Response (Some jsonText)"
    by simp_all
  with c h show "processChunks orc JSON_parse chunks i st =
                 processChunks orc JSON_parse chunks (i + 1)
                   (st\<lparr>sent := snt @ [t],
                       progress := Some \<lparr>current = i + 1, total_chunks = length chunks\<rparr>\<rparr>)"
    by (simp add: processChunks_success parseResponse_unparsable)
next
  assume h: "orc (length snt) t = Rejected msg"
  then show "verifyManuscript orc JSON_parse t key snt = (Inl (OracleError msg), snt @ [t])"
    using key by (simp add: verifyManuscript_Rejected)
  fix chunks :: "chunk list" and i :: nat and st :: app_state
  assume c: "i < length chunks \<and> apiKey st = key \<and> sent st = snt \<and>
               annotate (inputText st) i (chunks ! i) = t"
  with h key have "apiKey st \<noteq> []"
    and "orc (length (sent st)) (annotate (inputText st) i (chunks ! i)) = Rejected msg"
    by simp_all
  with c show "processChunks orc JSON_parse chunks i st =
                 (Some (OracleError msg), st\<lparr>sent := snt @ [t]\<rparr>)"
    by (simp add: processChunks_failure)
next
  assume h: "trim body = body \<and> (\<forall>c\<in>set lead. is_space c) \<and> (\<forall>c\<in>set trail. is_space c)"
  then have b: "trim body = body" and w1: "\<forall>c\<in>set lead. is_space c"
    and w2: "\<forall>c\<in>set trail. is_space c" and e: "\<forall>c\<in>set ([] :: string). is_space c"
    by simp_all
  from cleanJson_fenced(1) [OF b e w1 w2 e]
  show "cleanJson (''```json'' @ lead @ body @ trail @ ''```'') = body" by simp
  assume "\<not> startsWith (lead @ body @ trail @ ''```'') ''json''"
  from cleanJson_fenced(2) [OF b e w1 w2 e this]
  show "cleanJson (''```'' @ lead @ body @ trail @ ''```'') = body" by simp
qed

theorem malformed_output_tolerated_witness:
  "''key'' \<noteq> [] \<and>
   returns_garbage (length ([] :: string list)) ''x'' = Response (Some ''I cannot answer'') \<and>
   parse_fixture (cleanJson ''I cannot answer'') = None \<and>
   verifyManuscript returns_garbage parse_fixture ''x'' ''key'' [] = (Inr [], [''x'']) \<and>
   fails_on_second (length [''x'']) ''y'' = Rejected ''network'' \<and>
   verifyManuscript fails_on_second parse_fixture ''y'' ''key'' [''x''] =
     (Inl (OracleError ''network''), [''x'', ''y'']) \<and>
   trim sample_json = sample_json \<and>
   cleanJson (''```json'' @ [newline] @ sample_json @ [newline] @ ''```'') = sample_json"
proof -
  have key: "''key'' \<noteq> []" by simp
  have r1: "returns_garbage (length ([] :: string list)) ''x'' = Response (Some ''I cannot answer'')"
    by (simp add: returns_garbage_def)
  have p1: "parse_fixture (cleanJson ''I cannot answer'') = None"
    by (simp add: cleanJson_def trim_def is_space_def startsWith_def parse_fixture_def
          sample_json_def bogus_json_def)
  have r2: "fails_on_second (length [''x'']) ''y'' = Rejected ''network''"
    by (simp add: fails_on_second_def)
  have tr: "trim sample_json = sample_json"
    by (simp add: trim_def sample_json_def quoted_def is_space_def)
  have sp: "\<forall>c\<in>set [newline]. is_space c" by (simp add: is_space_def newline_def)
  note t1 = malformed_output_tolerated
    [where orc = returns_garbage and JSON_parse = parse_fixture and snt = "[]" and t = "''x''"
       and jsonText = "''I cannot answer''" and body = sample_json and lead = "[newline]"
       and trail = "[newline]", OF key]
  note t2 = malformed_output_tolerated
    [where orc = fails_on_second and JSON_parse = parse_fixture and snt = "[''x'']" and t = "''y''"
       and msg = "''network''", OF key]
  from t1 r1 p1 have "verifyManuscript returns_garbage parse_fixture ''x'' ''key'' [] = (Inr [], [] @ [''x''])"
    by blast
  moreover from t2 r2 have "verifyManuscript fails_on_second parse_fixture ''y'' ''key'' [''x''] =
     (Inl (OracleError ''network''), [''x''] @ [''y''])"
    by blast
  moreover from t1 tr sp
  have "cleanJson (''```json'' @ [newline] @ sample_json @ [newline] @ ''```'') = sample_json"
    by blast
  ultimately show ?thesis using key r1 p1 r2 tr by simp
qed

section \<open>Context stitcher: properties\<close>

lemma is_marker_iff:
  "is_marker m \<longleftrightarrow> (\<exists>ds. ds \<noteq> [] \<and> (\<forall>d\<in>set ds. is_digit d) \<and> m = ''[P'' @ ds @ '']'')"
proof
  assume m: "is_marker m"
  let ?ds = "butlast (drop 2 m)"
  from m have len: "4 \<le> length m" and pre: "take 2 m = ''[P''" and l: "last m = CHR '']''"
    and dig: "\<forall>d\<in>set ?ds. is_digit d" by (simp_all add: is_marker_def)
  from len have ne: "drop 2 m \<noteq> []" by simp
  then have "last (drop 2 m) = last m" by (simp add: last_drop)
  with ne l have "drop 2 m = ?ds @ '']''" by (metis append_butlast_last_id)
  then have "m = take 2 m @ ?ds @ '']''" by (metis append_take_drop_id)
  with pre have "m = ''[P'' @ ?ds @ '']''" by simp
  moreover from len have "?ds \<noteq> []" by (simp add: length_0_conv [symmetric] del: length_0_conv)
  ultimately show "\<exists>ds. ds \<noteq> [] \<and> (\<forall>d\<in>set ds. is_digit d) \<and> m = ''[P'' @ ds @ '']''"
    using dig by blast
next
  assume "\<exists>ds. ds \<noteq> [] \<and> (\<forall>d\<in>set ds. is_digit d) \<and> m = ''[P'' @ ds @ '']''"
  then obtain ds where "ds \<noteq> []" "\<forall>d\<in>set ds. is_digit d" "m = ''[P'' @ ds @ '']''" by blast
  then show "is_marker m"
    by (cases ds) (auto simp: is_marker_def butlast_append)
qed

lemma not_digit: "\<not> is_digit CHR '']''" "\<not> is_digit CHR ''[''" "\<not> is_digit CHR ''P''"
  by (simp_all add: is_digit_def)

lemma match_marker_sound: "match_marker t = Some m \<Longrightarrow> marker_at t 0 m"
proof -
  assume mm: "match_marker t = Some m"
  let ?ds = "takeWhile is_digit (drop 2 t)"
  let ?rest = "dropWhile is_digit (drop 2 t)"
  from mm have pre: "take 2 t = ''[P''" and ne: "?ds \<noteq> []" and cl: "take 1 ?rest = '']''"
    and m: "m = ''[P'' @ ?ds @ '']''"
    by (auto simp: match_marker_def Let_def split: if_splits)
  from cl obtain r where r: "?rest = CHR '']'' # r" by (cases ?rest) auto
  have "t = take 2 t @ ?ds @ ?rest" by simp
  with pre r have t: "t = m @ r" by (simp add: m)
  have "\<forall>d\<in>set ?ds. is_digit d" by (auto dest: set_takeWhileD)
  with ne m have "is_marker m" unfolding is_marker_iff by blast
  moreover from t have "take (length m) (drop 0 t) = m" by simp
  ultimately show ?thesis by (simp add: marker_at_def)
qed

lemma match_marker_complete: "marker_at t 0 m \<Longrightarrow> match_marker t = Some m"
proof -
  assume "marker_at t 0 m"
  then have im: "is_marker m" and tk: "take (length m) t = m" by (simp_all add: marker_at_def)
  from im obtain ds where ne: "ds \<noteq> []" and dig: "\<forall>d\<in>set ds. is_digit d"
    and m: "m = ''[P'' @ ds @ '']''" unfolding is_marker_iff by blast
  from tk have "t = m @ drop (length m) t" by (metis append_take_drop_id)
  then obtain r where t: "t = ''[P'' @ ds @ CHR '']'' # r" using m by simp
  have tw: "takeWhile is_digit (ds @ CHR '']'' # r) = ds"
    using dig by (simp add: takeWhile_tail not_digit)
  have dw: "dropWhile is_digit (ds @ CHR '']'' # r) = CHR '']'' # r"
    using dig by (simp add: dropWhile_append3 not_digit)
  show ?thesis
    by (simp add: match_marker_def t tw dw ne m)
qed

lemma marker_at_head: "marker_at t k m \<Longrightarrow> k < length t \<and> t ! k = CHR ''[''"
proof -
  assume a: "marker_at t k m"
  then have im: "is_marker m" and tk: "take (length m) (drop k t) = m" by (simp_all add: marker_at_def)
  from im have len: "4 \<le> length m" and pre: "take 2 m = ''[P''" by (simp_all add: is_marker_def)
  from tk len have "drop k t \<noteq> []" by auto
  then have k: "k < length t" by simp
  from pre len have "m ! 0 = CHR ''[''" by (cases m) auto
  moreover from tk len have "m ! 0 = drop k t ! 0" by (metis nth_take less_le_trans zero_less_numeral)
  ultimately show ?thesis using k by (simp add: nth_via_drop hd_drop_conv_nth hd_conv_nth)
qed

lemma marker_interior:
  assumes "is_marker m" and "0 < j" and "j < length m"
  shows "m ! j \<noteq> CHR ''[''"
proof -
  from assms(1) obtain ds where dig: "\<forall>d\<in>set ds. is_digit d"
    and m: "m = ''[P'' @ ds @ '']''" unfolding is_marker_iff by blast
  from m have tlm: "tl m = CHR ''P'' # ds @ '']''" by simp
  from assms(2,3) have j1: "j - 1 < length (tl m)" by simp
  then have "tl m ! (j - 1) = m ! Suc (j - 1)" by (rule nth_tl)
  with assms(2) have "m ! j = tl m ! (j - 1)" by simp
  moreover from j1 have "tl m ! (j - 1) \<in> set (tl m)" by (rule nth_mem)
  ultimately have "m ! j \<in> set (CHR ''P'' # ds @ '']'')" by (simp only: tlm)
  then have "m ! j = CHR ''P'' \<or> m ! j \<in> set ds \<or> m ! j = CHR '']''" by auto
  then show ?thesis
  proof (elim disjE)
    assume "m ! j = CHR ''P''" then show ?thesis by simp
  next
    assume "m ! j \<in> set ds"
    with dig have "is_digit (m ! j)" by blast
    then show ?thesis using not_digit(2) by metis
  next
    assume "m ! j = CHR '']''" then show ?thesis by simp
  qed
qed

lemma marker_no_overlap:
  assumes "marker_at t 0 m0" and "marker_at t k m" and "0 < k"
  shows "length m0 \<le> k"
proof (rule ccontr)
  assume "\<not> length m0 \<le> k"
  then have lt: "k < length m0" by simp
  from assms(1) have im: "is_marker m0" and tk: "take (length m0) t = m0"
    by (simp_all add: marker_at_def)
  from lt have "take (length m0) t ! k = t ! k" by (rule nth_take)
  with tk have "m0 ! k = t ! k" by simp
  moreover from marker_at_head [OF assms(2)] have "t ! k = CHR ''[''" by simp
  ultimately show False using marker_interior [OF im assms(3) lt] by simp
qed

lemma marker_at_tl: "marker_at (tl t) j m \<longleftrightarrow> marker_at t (Suc j) m"
  by (simp add: marker_at_def drop_Suc)

lemma marker_at_drop: "marker_at (drop l t) j m \<longleftrightarrow> marker_at t (j + l) m"
  by (simp add: marker_at_def add.commute)

lemma marker_at_unique: "marker_at t k m \<Longrightarrow> marker_at t k m' \<Longrightarrow> m = m'"
  using match_marker_complete [of "drop k t" m] match_marker_complete [of "drop k t" m']
  by (simp add: marker_at_def)

lemma matchAll_spec:
  "(matchAll t = [] \<longleftrightarrow> (\<forall>k m. \<not> marker_at t k m)) \<and>
   (\<forall>k m. marker_at t k m \<and> (\<forall>k' m'. marker_at t k' m' \<longrightarrow> k' \<le> k) \<longrightarrow>
            last (matchAll t) = m)"
proof (induction t rule: matchAll.induct)
  case (1 s)
  show ?case
  proof (cases "s = []")
    case True
    then have "matchAll s = []" by (subst matchAll.simps) simp
    moreover from True have "\<forall>k m. \<not> marker_at s k m"
      by (auto dest: marker_at_head)
    ultimately show ?thesis by simp
  next
    case ne: False
    show ?thesis
    proof (cases "match_marker s")
      case None
      with ne have eq: "matchAll s = matchAll (tl s)" by (subst matchAll.simps) simp
      from None have no0: "\<not> marker_at s 0 m" for m
        using match_marker_complete [of s m] by auto
      have shift: "marker_at s k m \<longleftrightarrow> (\<exists>j. k = Suc j \<and> marker_at (tl s) j m)" for k m
        using no0 [of m] by (cases k) (auto simp: marker_at_tl)
      from "1.IH"(1) [OF ne None]
      have ih1: "matchAll (tl s) = [] \<longleftrightarrow> (\<forall>k m. \<not> marker_at (tl s) k m)"
        and ih2: "\<And>k m. marker_at (tl s) k m \<Longrightarrow> (\<forall>k' m'. marker_at (tl s) k' m' \<longrightarrow> k' \<le> k) \<Longrightarrow>
            last (matchAll (tl s)) = m"
        by blast+
      have "matchAll s = [] \<longleftrightarrow> (\<forall>k m. \<not> marker_at s k m)"
        unfolding eq ih1 using shift by blast
      moreover have "last (matchAll s) = m"
        if a: "marker_at s k m" and b: "\<forall>k' m'. marker_at s k' m' \<longrightarrow> k' \<le> k" for k m
      proof -
        from a shift obtain j where k: "k = Suc j" and mj: "marker_at (tl s) j m" by blast
        have "\<forall>k' m'. marker_at (tl s) k' m' \<longrightarrow> k' \<le> j"
        proof (intro allI impI)
          fix k' m' assume "marker_at (tl s) k' m'"
          then have "marker_at s (Suc k') m'" by (simp add: marker_at_tl)
          with b have "Suc k' \<le> k" by blast
          with k show "k' \<le> j" by simp
        qed
        with ih2 [OF mj] show ?thesis by (simp add: eq)
      qed
      ultimately show ?thesis by blast
    next
      case (Some m0)
      let ?r = "drop (length m0) s"
      from ne Some have eq: "matchAll s = m0 # matchAll ?r" by (subst matchAll.simps) simp
      from Some have at0: "marker_at s 0 m0" by (rule match_marker_sound)
      from "1.IH"(2) [OF ne Some]
      have ih1: "matchAll ?r = [] \<longleftrightarrow> (\<forall>k m. \<not> marker_at ?r k m)"
        and ih2: "\<And>k m. marker_at ?r k m \<Longrightarrow> (\<forall>k' m'. marker_at ?r k' m' \<longrightarrow> k' \<le> k) \<Longrightarrow>
            last (matchAll ?r) = m"
        by blast+
      have split: "(k = 0 \<and> m = m0) \<or> (length m0 \<le> k \<and> marker_at ?r (k - length m0) m)"
        if a: "marker_at s k m" for k m
      proof (cases "k = 0")
        case True
        with a at0 show ?thesis by (auto dest: marker_at_unique)
      next
        case False
        then have "0 < k" by simp
        from marker_no_overlap [OF at0 a this] have le: "length m0 \<le> k" .
        with a have "marker_at ?r (k - length m0) m" by (simp add: marker_at_drop)
        with le show ?thesis by simp
      qed
      have p1: "matchAll s = [] \<longleftrightarrow> (\<forall>k m. \<not> marker_at s k m)"
        using eq at0 by auto
      have p2: "last (matchAll s) = m"
        if a: "marker_at s k m" and b: "\<forall>k' m'. marker_at s k' m' \<longrightarrow> k' \<le> k" for k m
      proof (cases "matchAll ?r = []")
        case True
        with ih1 have none: "\<forall>k m. \<not> marker_at ?r k m" by simp
        from split [OF a] none have "m = m0" by blast
        with True show ?thesis by (simp add: eq)
      next
        case False
        with ih1 obtain j mj where j: "marker_at ?r j mj" by blast
        then have "marker_at s (j + length m0) mj" by (simp add: marker_at_drop)
        with b have "j + length m0 \<le> k" by blast
        moreover from at0 have "4 \<le> length m0" by (simp add: marker_at_def is_marker_def)
        ultimately have "k \<noteq> 0" by arith
        with split [OF a] have le: "length m0 \<le> k" and mk: "marker_at ?r (k - length m0) m"
          by simp_all
        have "\<forall>k' m'. marker_at ?r k' m' \<longrightarrow> k' \<le> k - length m0"
        proof (intro allI impI)
          fix k' m' assume "marker_at ?r k' m'"
          then have "marker_at s (k' + length m0) m'" by (simp add: marker_at_drop)
          with b have "k' + length m0 \<le> k" by blast
          then show "k' \<le> k - length m0" by simp
        qed
        from ih2 [OF mk this] False show ?thesis by (simp add: eq)
      qed
      from p1 p2 show ?thesis by blast
    qed
  qed
qed

lemma marker_at_bound: "marker_at t k m \<Longrightarrow> k + 4 \<le> length t"
proof -
  assume a: "marker_at t k m"
  then have "4 \<le> length m" and "take (length m) (drop k t) = m"
    by (simp_all add: marker_at_def is_marker_def)
  then have "4 \<le> length (take (length m) (drop k t))" by simp
  then have "4 \<le> length t - k" by simp
  then show ?thesis by arith
qed

lemma annotate_first: "annotate fullText 0 c = chunk_text c"
  by (simp add: annotate_def)

lemma annotate_none:
  "0 < i \<Longrightarrow> \<forall>k m. \<not> marker_at (take (startIndex c) fullText) k m \<Longrightarrow>
     annotate fullText i c = chunk_text c"
  using matchAll_spec [of "take (startIndex c) fullText"]
  by (simp add: annotate_def slice_def)

lemma annotate_last:
  assumes "0 < i" and "marker_at (take (startIndex c) fullText) k m"
    and "\<forall>k' m'. marker_at (take (startIndex c) fullText) k' m' \<longrightarrow> k' \<le> k"
  shows "annotate fullText i c = ''(Context: Continued from '' @ m @ '')'' @ [newline] @ chunk_text c"
proof -
  let ?tb = "take (startIndex c) fullText"
  from matchAll_spec [of ?tb] assms(2) have ne: "matchAll ?tb \<noteq> []" by blast
  from matchAll_spec [of ?tb] assms(2,3) have "last (matchAll ?tb) = m" by blast
  with ne have "matchAll ?tb ! (length (matchAll ?tb) - 1) = m" by (simp add: last_conv_nth)
  with ne assms(1) show ?thesis by (simp add: annotate_def slice_def Let_def)
qed

lemma annotate_example:
  "annotate stitch_text 1 \<lparr>chunk_text = ''\<newline>Beta'', startIndex = 15\<rparr> =
     ''(Context: Continued from [P2])\<newline>\<newline>Beta''"
  by code_simp

text \<open>
  Claim C5. The first chunk (index 0) is sent as it is. For a chunk with index at least 1,
  look at the text before its \<open>startIndex\<close>: if no marker \<open>[P<number>]\<close> occurs in it, the
  chunk is sent as it is; if one occurs, and \<open>m\<close> is the last occurrence (no marker occurs
  at a later position), the text sent is \<open>(Context: Continued from m)\<close>, a newline, and
  the chunk's text. For the full text \<open>[P1]\nAlpha\n[P2]\nBeta\<close> and the chunk that
  starts right after \<open>[P2]\<close>, at index 1, the text sent starts with
  \<open>(Context: Continued from [P2])\<close> and a newline.
\<close>

theorem annotate_continuation:
  "annotate fullText 0 c = chunk_text c \<and>
   (0 < i \<and> (\<forall>k m. \<not> marker_at (take (startIndex c) fullText) k m) \<longrightarrow>
      annotate fullText i c = chunk_text c) \<and>
   (0 < i \<and> marker_at (take (startIndex c) fullText) k m \<and>
    (\<forall>k' m'. marker_at (take (startIndex c) fullText) k' m' \<longrightarrow> k' \<le> k) \<longrightarrow>
      annotate fullText i c =
        ''(Context: Continued from '' @ m @ '')'' @ [newline] @ chunk_text c) \<and>
   annotate stitch_text 1 \<lparr>chunk_text = ''\<newline>Beta'', startIndex = 15\<rparr> =
     ''(Context: Continued from [P2])\<newline>\<newline>Beta''"
  using annotate_first annotate_none annotate_last annotate_example by blast

theorem annotate_continuation_witness:
  "(0::nat) < 1 \<and>
   marker_at (take (startIndex \<lparr>chunk_text = ''\<newline>Beta'', startIndex = 15\<rparr>) stitch_text) 11 ''[P2]'' \<and>
   \<not> (\<exists>k' m'. marker_at (take (startIndex \<lparr>chunk_text = ''\<newline>Beta'', startIndex = 15\<rparr>) stitch_text)
                  k' m' \<and> 11 < k') \<and>
   annotate stitch_text 1 \<lparr>chunk_text = ''\<newline>Beta'', startIndex = 15\<rparr> =
     ''(Context: Continued from '' @ ''[P2]'' @ '')'' @ [newline] @ ''\<newline>Beta''"
proof -
  let ?c = "\<lparr>chunk_text = ''\<newline>Beta'', startIndex = 15\<rparr>"
  have i: "(0::nat) < 1" by simp
  have at: "marker_at (take (startIndex ?c) stitch_text) 11 ''[P2]''"
    by (simp add: marker_at_def is_marker_def is_digit_def stitch_text_def)
  have "k' \<le> 11" if "marker_at (take (startIndex ?c) stitch_text) k' m'" for k' m'
    using marker_at_bound [OF that] by (simp add: stitch_text_def)
  then have last: "\<forall>k' m'. marker_at (take (startIndex ?c) stitch_text) k' m' \<longrightarrow> k' \<le> 11"
    by blast
  from annotate_continuation [of stitch_text ?c 1 11 "''[P2]''"] i at last
  have "annotate stitch_text 1 ?c =
     ''(Context: Continued from '' @ ''[P2]'' @ '')'' @ [newline] @ chunk_text ?c"
    by blast
  moreover from last have "\<not> (\<exists>k' m'. marker_at (take (startIndex ?c) stitch_text) k' m' \<and> 11 < k')"
    by (auto simp: not_less)
  ultimately show ?thesis using i at by simp
qed

end
